theory Spec2Isabelle
  imports Complex_Main "HOL-Library.Sublist"
begin

section \<open>JavaScript string primitives used by the components\<close>

text \<open>
  Paths and tags are JavaScript strings; they are modelled as \<open>string\<close> (a list of
  characters).  The components use two built-in operations on them:
  \<^verbatim>\<open>s.includes(sub)\<close> and \<^verbatim>\<open>s.replace(regex, repl)\<close>, the latter with the regular
  expressions \<^verbatim>\<open>/<rt>-v\d+/\<close> and \<^verbatim>\<open>/<rt>(-v\d+)?/\<close> for a root \<open>rt\<close>.  They have no
  global flag, so only the leftmost match is replaced; \<^verbatim>\<open>\d+\<close> is greedy; the
  replacement strings of the source contain no \<^verbatim>\<open>$\<close> pattern.
\<close>

fun strip_prefix :: "string \<Rightarrow> string \<Rightarrow> string option" where
  "strip_prefix [] s = Some s"
| "strip_prefix (c # cs) [] = None"
| "strip_prefix (c # cs) (d # ds) = (if c = d then strip_prefix cs ds else None)"

text \<open>\<^verbatim>\<open>s.includes(sub)\<close>: \<open>sub\<close> occurs somewhere in \<open>s\<close>.\<close>

fun includes_str :: "string \<Rightarrow> string \<Rightarrow> bool" where
  "includes_str [] sub = (sub = [])"
| "includes_str (c # cs) sub = (strip_prefix sub (c # cs) \<noteq> None \<or> includes_str cs sub)"

text \<open>\<^verbatim>\<open>\d\<close> without the unicode flag: the ten ASCII digits.\<close>

definition isDigit :: "char \<Rightarrow> bool" where
  "isDigit c = (c \<in> set ''0123456789'')"

text \<open>
  The sub-pattern \<^verbatim>\<open>-v\d+\<close> anchored at the start of \<open>s\<close>: the text left after the
  greedy match, or \<open>None\<close> when it does not match.
\<close>

definition match_version :: "string \<Rightarrow> string option" where
  "match_version s =
     (case strip_prefix ''-v'' s of
        None \<Rightarrow> None
      | Some r \<Rightarrow> if takeWhile isDigit r = [] then None else Some (dropWhile isDigit r))"

text \<open>
  The two regular expressions of the source, anchored at the start of \<open>s\<close>:
  \<^verbatim>\<open>/<rt>-v\d+/\<close> and \<^verbatim>\<open>/<rt>(-v\d+)?/\<close>.  A matcher returns the text left after
  the match.  The optional group is greedy: it takes the marker whenever one is there.
\<close>

definition match_versioned :: "string \<Rightarrow> string \<Rightarrow> string option" where
  "match_versioned rt s = Option.bind (strip_prefix rt s) match_version"

definition match_optional :: "string \<Rightarrow> string \<Rightarrow> string option" where
  "match_optional rt s =
     (case strip_prefix rt s of
        None \<Rightarrow> None
      | Some r \<Rightarrow> (case match_version r of Some r' \<Rightarrow> Some r' | None \<Rightarrow> Some r))"

text \<open>
  \<^verbatim>\<open>s.replace(regex, repl)\<close> for a regular expression without the global flag: the
  leftmost match is replaced, and a string without a match is returned as it is.
\<close>

fun replace_first :: "(string \<Rightarrow> string option) \<Rightarrow> string \<Rightarrow> string \<Rightarrow> string" where
  "replace_first m repl s =
     (case m s of
        Some r \<Rightarrow> repl @ r
      | None \<Rightarrow> (case s of [] \<Rightarrow> [] | c # cs \<Rightarrow> c # replace_first m repl cs))"

declare replace_first.simps [simp del]

section \<open>VersionSelector (src/components/VersionSelector/index.tsx)\<close>

text \<open>
  The component state: the router's \<^verbatim>\<open>location.pathname\<close> and the two \<^verbatim>\<open>useState\<close>
  cells.  An assignment to \<^verbatim>\<open>window.location.href\<close> is the navigation request; a
  handler returns it as \<open>Some target\<close>, and \<open>None\<close> when it makes no assignment.
\<close>

record selector =
  pathname :: string
  currentVersion :: string
  isOpen :: bool

text \<open>The effect that detects the current version from the URL.\<close>

definition detectVersion :: "string \<Rightarrow> string" where
  "detectVersion path =
     (if includes_str path ''/examples-v1'' \<or> includes_str path ''/docs-v1'' then ''v1''
      else ''v0'')"

text \<open>The page as it stands after a (re)load at \<open>path\<close>, once the effect has run.\<close>

definition mount :: "string \<Rightarrow> selector" where
  "mount path = \<lparr>pathname = path, currentVersion = detectVersion path, isOpen = False\<rparr>"

text \<open>
  The computation of \<^verbatim>\<open>newPath\<close> in \<^verbatim>\<open>handleVersionChange\<close>, which the key handler
  repeats inline.  (The variant of the component that renders a plain \<^verbatim>\<open>select\<close> element
  computes it in the same way.)
\<close>

definition newPath :: "string \<Rightarrow> string \<Rightarrow> string" where
  "newPath val path =
     (if val = ''v0'' then
        (if includes_str path ''/examples'' then
           replace_first (match_versioned ''/examples'') ''/examples'' path
         else if includes_str path ''/docs'' then
           replace_first (match_versioned ''/docs'') ''/docs'' path
         else path)
      else if val = ''v1'' then
        (if includes_str path ''/examples'' then
           replace_first (match_optional ''/examples'') ''/examples-v1'' path
         else if includes_str path ''/docs'' then
           replace_first (match_optional ''/docs'') ''/docs-v1'' path
         else path)
      else path)"

definition handleVersionChange :: "selector \<Rightarrow> string \<Rightarrow> selector \<times> string option" where
  "handleVersionChange st val =
     (if val = currentVersion st then (st\<lparr>isOpen := False\<rparr>, None)
      else (st\<lparr>isOpen := False\<rparr>, Some (newPath val (pathname st))))"

text \<open>
  What a handler does besides updating the state: the assignment to
  \<^verbatim>\<open>window.location.href\<close>, \<^verbatim>\<open>triggerRef.current?.focus()\<close> and
  \<^verbatim>\<open>event.preventDefault()\<close>.
\<close>

record effects =
  navigated :: "string option"
  focusedTrigger :: bool
  defaultPrevented :: bool

definition no_effects :: effects where
  "no_effects = \<lparr>navigated = None, focusedTrigger = False, defaultPrevented = False\<rparr>"

text \<open>\<^verbatim>\<open>xs.indexOf(x)\<close>: the first index of \<open>x\<close>, or \<open>-1\<close>.\<close>

fun indexOf :: "'a list \<Rightarrow> 'a \<Rightarrow> int" where
  "indexOf [] x = -1"
| "indexOf (y # ys) x =
     (if y = x then 0 else (let i = indexOf ys x in if i < 0 then -1 else i + 1))"

text \<open>
  The remainder operator \<^verbatim>\<open>a % n\<close> on integer-valued numbers: the result has the sign
  of the dividend, and \<^verbatim>\<open>a % 0\<close> is \<^verbatim>\<open>NaN\<close> (\<open>None\<close>).
\<close>

definition js_rem :: "int \<Rightarrow> int \<Rightarrow> int option" where
  "js_rem a n = (if n = 0 then None else Some (sgn a * (\<bar>a\<bar> mod \<bar>n\<bar>)))"

text \<open>
  \<^verbatim>\<open>xs[i]\<close>: \<^verbatim>\<open>undefined\<close> (\<open>None\<close>) when the index is \<^verbatim>\<open>NaN\<close> or out of range.
  (A remainder \<^verbatim>\<open>-0\<close> indexes element 0, as the integer 0 does here.)
\<close>

definition at_index :: "'a list \<Rightarrow> int option \<Rightarrow> 'a option" where
  "at_index xs i =
     (case i of
        None \<Rightarrow> None
      | Some j \<Rightarrow> if 0 \<le> j \<and> j < int (length xs) then Some (xs ! nat j) else None)"

text \<open>The index arithmetic shared by both key handlers.\<close>

definition nextIndex :: "string \<Rightarrow> int \<Rightarrow> int \<Rightarrow> int option" where
  "nextIndex key currentIndex len =
     (if key = ''ArrowDown'' then js_rem (currentIndex + 1) len
      else js_rem (currentIndex - 1 + len) len)"

text \<open>
  The key handler is registered only while the menu is open.  Its options are the
  literal \<^verbatim>\<open>['v0', 'v1']\<close>, and the version change is inlined.
\<close>

definition handleKeyDown :: "selector \<Rightarrow> string \<Rightarrow> selector \<times> effects" where
  "handleKeyDown st key =
     (if \<not> isOpen st then (st, no_effects)
      else if key = ''Escape'' then
        (st\<lparr>isOpen := False\<rparr>, no_effects\<lparr>focusedTrigger := True\<rparr>)
      else if key = ''ArrowDown'' \<or> key = ''ArrowUp'' then
        (let options = [''v0'', ''v1''];
             currentIndex = indexOf options (currentVersion st);
             newValue = at_index options (nextIndex key currentIndex (int (length options)))
         in if newValue = Some (currentVersion st) then
              (st\<lparr>isOpen := False\<rparr>, no_effects\<lparr>defaultPrevented := True\<rparr>)
            else
              (st\<lparr>isOpen := False\<rparr>,
               no_effects\<lparr>defaultPrevented := True,
                 navigated := Some (case newValue of
                                      None \<Rightarrow> pathname st
                                    | Some v \<Rightarrow> newPath v (pathname st))\<rparr>))
      else (st, no_effects))"

section \<open>VersionSelector with a disabled preview option (second variant of the component)\<close>

text \<open>
  The second variant of the component declares its options with a \<^verbatim>\<open>disabled\<close> flag,
  and navigates to the base path only.  The option list is a module constant of the
  source; the handlers take it as a parameter, and \<open>options\<close> is the source's value.
\<close>

record versionOption =
  opt_value :: string
  opt_label :: string
  opt_disabled :: bool

definition options :: "versionOption list" where
  "options =
     [\<lparr>opt_value = ''v0'', opt_label = ''v0'', opt_disabled = False\<rparr>,
      \<lparr>opt_value = ''v1'', opt_label = ''v1-preview'', opt_disabled = True\<rparr>]"

text \<open>
  The base path chosen for a selected value; the value is \<^verbatim>\<open>undefined\<close> (\<open>None\<close>) when
  the key handler indexes out of range.
\<close>

definition basePath :: "string option \<Rightarrow> string \<Rightarrow> string" where
  "basePath val path =
     (if val = Some ''v0'' then
        (if includes_str path ''/examples'' then ''/examples''
         else if includes_str path ''/docs'' then ''/docs''
         else [])
      else [])"

definition handleVersionChange_preview ::
  "versionOption list \<Rightarrow> selector \<Rightarrow> string \<Rightarrow> selector \<times> string option" where
  "handleVersionChange_preview opts st val =
     (if (case find (\<lambda>opt. opt_value opt = val) opts of
            None \<Rightarrow> False
          | Some opt \<Rightarrow> opt_disabled opt)
      then (st, None)
      else if val = currentVersion st then (st\<lparr>isOpen := False\<rparr>, None)
      else (st\<lparr>isOpen := False\<rparr>, Some (basePath (Some val) (pathname st))))"

text \<open>The click handler of a rendered option: \<^verbatim>\<open>!option.disabled && handleVersionChange(option.value)\<close>.\<close>

definition onClick_preview ::
  "versionOption list \<Rightarrow> selector \<Rightarrow> versionOption \<Rightarrow> selector \<times> string option" where
  "onClick_preview opts st opt =
     (if opt_disabled opt then (st, None)
      else handleVersionChange_preview opts st (opt_value opt))"

definition enabledValues :: "versionOption list \<Rightarrow> string list" where
  "enabledValues opts = map opt_value (filter (\<lambda>opt. \<not> opt_disabled opt) opts)"

text \<open>The value the arrow keys move to: \<^verbatim>\<open>enabledValues[nextIndex]\<close>.\<close>

definition newValue_preview :: "versionOption list \<Rightarrow> string \<Rightarrow> string \<Rightarrow> string option" where
  "newValue_preview opts current key =
     at_index (enabledValues opts)
       (nextIndex key (indexOf (enabledValues opts) current) (int (length (enabledValues opts))))"

definition handleKeyDown_preview ::
  "versionOption list \<Rightarrow> selector \<Rightarrow> string \<Rightarrow> selector \<times> effects" where
  "handleKeyDown_preview opts st key =
     (if \<not> isOpen st then (st, no_effects)
      else if key = ''Escape'' then
        (st\<lparr>isOpen := False\<rparr>, no_effects\<lparr>focusedTrigger := True\<rparr>)
      else if key = ''ArrowDown'' \<or> key = ''ArrowUp'' then
        (let newValue = newValue_preview opts (currentVersion st) key
         in if newValue = Some (currentVersion st) then
              (st\<lparr>isOpen := False\<rparr>, no_effects\<lparr>defaultPrevented := True\<rparr>)
            else
              (st\<lparr>isOpen := False\<rparr>,
               no_effects\<lparr>defaultPrevented := True,
                 navigated := Some (basePath newValue (pathname st))\<rparr>))
      else (st, no_effects))"

section \<open>DocCardList (src/theme/DocCardList/index.tsx)\<close>

text \<open>
  A sidebar item as the filter sees it.  \<^verbatim>\<open>customProps\<close> is an optional dictionary of
  values of unknown type, so \<^verbatim>\<open>customProps.tags\<close> may be absent, an array of strings, or
  some value that is not an array.
\<close>

datatype tagsValue = TagArray "string list" | NotArray string

record customProps =
  tags :: "tagsValue option"

record item =
  href :: string
  label :: string
  description :: "string option"
  customProps :: "customProps option"

text \<open>\<^verbatim>\<open>item?.customProps?.tags\<close>: \<^verbatim>\<open>undefined\<close> (\<open>None\<close>) when a link of the chain is absent.\<close>

definition itemTags :: "item \<Rightarrow> tagsValue option" where
  "itemTags it = (case customProps it of None \<Rightarrow> None | Some cp \<Rightarrow> tags cp)"

text \<open>\<^verbatim>\<open>tags.includes(selectedTag)\<close> on an array: a scan with strict equality on strings.\<close>

fun array_includes :: "string list \<Rightarrow> string \<Rightarrow> bool" where
  "array_includes [] x = False"
| "array_includes (y # ys) x = (y = x \<or> array_includes ys x)"

text \<open>The callback given to \<^verbatim>\<open>items.filter\<close>.\<close>

definition matchesTag :: "string \<Rightarrow> item \<Rightarrow> bool" where
  "matchesTag selectedTag it =
     (case itemTags it of
        Some (TagArray ts) \<Rightarrow> array_includes ts selectedTag
      | _ \<Rightarrow> False)"

text \<open>
  \<^verbatim>\<open>selectedTag ? items.filter(...) : items\<close>.  The state is \<^verbatim>\<open>string | null\<close>; \<^verbatim>\<open>null\<close> and the
  empty string are the falsy values.
\<close>

definition filteredItems :: "item list \<Rightarrow> string option \<Rightarrow> item list" where
  "filteredItems items selectedTag =
     (case selectedTag of
        None \<Rightarrow> items
      | Some t \<Rightarrow> if t = [] then items else filter (matchesTag t) items)"

definition handleValueChange :: "string \<Rightarrow> string option" where
  "handleValueChange v = (if v = [] then None else Some v)"

definition radioValue :: "string option \<Rightarrow> string" where
  "radioValue selectedTag = (case selectedTag of None \<Rightarrow> [] | Some t \<Rightarrow> t)"

subsection \<open>The same computation over a store of arrays\<close>

text \<open>
  JavaScript arrays are mutable objects held by reference.  To speak about what the
  computation does to the array it is given, arrays live in a store: \<^verbatim>\<open>items.filter\<close>
  allocates a fresh array for its result, and the other branch returns the reference it
  was given.
\<close>

record store =
  cells :: "nat \<Rightarrow> item list option"
  fresh :: nat

definition alloc :: "store \<Rightarrow> item list \<Rightarrow> store \<times> nat" where
  "alloc h xs = (h\<lparr>cells := (cells h)(fresh h \<mapsto> xs), fresh := Suc (fresh h)\<rparr>, fresh h)"

definition filteredItems_store :: "store \<Rightarrow> nat \<Rightarrow> string option \<Rightarrow> store \<times> nat" where
  "filteredItems_store h items selectedTag =
     (case selectedTag of
        None \<Rightarrow> (h, items)
      | Some t \<Rightarrow>
          if t = [] then (h, items)
          else alloc h (filter (matchesTag t) (case cells h items of None \<Rightarrow> [] | Some xs \<Rightarrow> xs)))"

text \<open>A store is well formed when every allocated address lies below the next fresh one.\<close>

definition wf_store :: "store \<Rightarrow> bool" where
  "wf_store h = (\<forall>a. cells h a \<noteq> None \<longrightarrow> a < fresh h)"

section \<open>GitHubStar: the star count and its formatting\<close>

text \<open>
  The count is a JavaScript value: \<^verbatim>\<open>null\<close> (the initial state), \<^verbatim>\<open>undefined\<close> (a
  response without the field), or a number.  The numbers modelled are \<^verbatim>\<open>NaN\<close>,
  \<^verbatim>\<open>-Infinity\<close>, \<^verbatim>\<open>Infinity\<close>, \<^verbatim>\<open>-0\<close> and the safe integers: the integer-valued numbers
  strictly between \<open>-2^53\<close> and \<open>2^53\<close> (\<open>Num\<close> of zero is \<^verbatim>\<open>+0\<close>).  On a safe integer
  the divisions by 100 and 1000 followed by \<^verbatim>\<open>Math.round\<close> give the exactly rounded
  quotient, and every number printed is below \<open>10^21\<close>, so that none is written with an
  exponent.  The type has no value for
  a number with a fractional part or for an integer outside the safe range: what the
  source does on those depends on floating-point rounding and is not described here.
\<close>

definition inSafeRange :: "int \<Rightarrow> bool" where
  "inSafeRange c = (- (2 ^ 53) < c \<and> c < 2 ^ 53)"

typedef safeInteger = "{c :: int. inSafeRange c}"
  morphisms valueOf safeInteger_of
  by (rule exI [of _ 0]) (simp add: inSafeRange_def)

setup_lifting type_definition_safeInteger

text \<open>
  The safe integer for an integer of the range.  (Outside the range there is none; the
  function is total, and the only use below is guarded.)
\<close>

lift_definition safeInteger_from :: "int \<Rightarrow> safeInteger" is
  "\<lambda>n. if inSafeRange n then n else 0"
  by (simp add: inSafeRange_def)

datatype number = NaN | NegInfinity | PosInfinity | NegZero | Num safeInteger

datatype jsvalue = Null | Undefined | Number number

definition digit_char :: "nat \<Rightarrow> char" where
  "digit_char d = ''0123456789'' ! d"

fun digits :: "nat \<Rightarrow> string" where
  "digits n = (if n < 10 then [digit_char n] else digits (n div 10) @ [digit_char (n mod 10)])"

declare digits.simps [simp del]

text \<open>
  The conversion of a number to a string, as a template literal does it.  A safe integer
  is below \<open>10^21\<close>, so it is written in plain digits; \<^verbatim>\<open>-0\<close> is written \<^verbatim>\<open>0\<close>.
\<close>

definition Number_toString :: "number \<Rightarrow> string" where
  "Number_toString n =
     (case n of
        NaN \<Rightarrow> ''NaN''
      | NegInfinity \<Rightarrow> ''-Infinity''
      | PosInfinity \<Rightarrow> ''Infinity''
      | NegZero \<Rightarrow> ''0''
      | Num c \<Rightarrow>
          if valueOf c < 0 then CHR ''-'' # digits (nat (- valueOf c))
          else digits (nat (valueOf c)))"

text \<open>\<^verbatim>\<open>Math.round\<close>: the nearest integer, a tie going up.\<close>

definition Math_round :: "rat \<Rightarrow> int" where
  "Math_round x = \<lfloor>x + 1 / 2\<rfloor>"

text \<open>\<^verbatim>\<open>Math.round(count / 1000)\<close> on a safe integer: a safe integer again.\<close>

lift_definition Math_round_thousands :: "safeInteger \<Rightarrow> safeInteger" is
  "\<lambda>c. Math_round (of_int c / 1000)"
proof -
  fix c :: int
  assume "inSafeRange c"
  then have c: "- (2 ^ 53) < c" "c < 2 ^ 53" by (simp_all add: inSafeRange_def)
  have "(of_int c / 1000 + 1 / 2 :: rat) = of_int (c + 500) / of_int 1000"
    by (simp add: field_simps)
  then have "Math_round (of_int c / 1000) = (c + 500) div 1000"
    unfolding Math_round_def by (simp only: floor_divide_of_int_eq)
  moreover have "- (2 ^ 53) < (c + 500) div 1000" "(c + 500) div 1000 < 2 ^ 53"
    using c by linarith+
  ultimately show "inSafeRange (Math_round (of_int c / 1000))"
    by (simp only: inSafeRange_def simp_thms)
qed

text \<open>
  \<^verbatim>\<open>x.toFixed(1)\<close>: with \<open>n\<close> the integer for which \<open>n / 10\<close> is nearest to \<open>x\<close> (the larger
  one on a tie), the digits of \<open>n\<close> with a point before the last one.
\<close>

definition toFixed1 :: "rat \<Rightarrow> string" where
  "toFixed1 x =
     (let a = \<bar>x\<bar>; n = nat \<lfloor>a * 10 + 1 / 2\<rfloor>;
          s = digits (n div 10) @ ''.'' @ digits (n mod 10)
      in if x < 0 \<and> n \<noteq> 0 then CHR ''-'' # s else s)"

text \<open>
  \<^verbatim>\<open>count.toLocaleString()\<close> is called without a locale: it formats for the default locale
  of the host, which the component does not choose.  \<open>formatStars\<close> takes the host's
  function as a parameter.  Two hosts are given.  \<open>toLocaleString_en\<close> is the formatting
  of an English locale: groups of three digits separated by commas, \<^verbatim>\<open>-0\<close> for negative
  zero, the infinity sign (U+221E, three bytes) for the infinities.
  \<open>toLocaleString_arab\<close> is a host whose default locale has the Arabic-Indic numbering
  system (such as \<^verbatim>\<open>ar-EG\<close>): it writes the integers from 0 to 999 with the digits U+0660
  to U+0669 (two bytes each); on all other numbers it is given the English text here,
  and nothing below depends on that.
\<close>

fun group3 :: "nat \<Rightarrow> string" where
  "group3 n =
     (if n < 1000 then digits n
      else group3 (n div 1000) @ '','' @
           [digit_char (n mod 1000 div 100), digit_char (n mod 100 div 10), digit_char (n mod 10)])"

declare group3.simps [simp del]

definition infinity_sign :: string where
  "infinity_sign = [CHR 0xE2, CHR 0x88, CHR 0x9E]"

definition toLocaleString_en :: "number \<Rightarrow> string" where
  "toLocaleString_en n =
     (case n of
        NaN \<Rightarrow> ''NaN''
      | NegInfinity \<Rightarrow> CHR ''-'' # infinity_sign
      | PosInfinity \<Rightarrow> infinity_sign
      | NegZero \<Rightarrow> ''-0''
      | Num c \<Rightarrow>
          if valueOf c < 0 then CHR ''-'' # group3 (nat (- valueOf c))
          else group3 (nat (valueOf c)))"

definition arabic_digit :: "nat \<Rightarrow> string" where
  "arabic_digit d =
     [CHR 0xD9,
      [CHR 0xA0, CHR 0xA1, CHR 0xA2, CHR 0xA3, CHR 0xA4,
       CHR 0xA5, CHR 0xA6, CHR 0xA7, CHR 0xA8, CHR 0xA9] ! d]"

fun arabic_digits :: "nat \<Rightarrow> string" where
  "arabic_digits n =
     (if n < 10 then arabic_digit n
      else arabic_digits (n div 10) @ arabic_digit (n mod 10))"

declare arabic_digits.simps [simp del]

definition toLocaleString_arab :: "number \<Rightarrow> string" where
  "toLocaleString_arab n =
     (case n of
        Num c \<Rightarrow>
          if 0 \<le> valueOf c \<and> valueOf c < 1000 then arabic_digits (nat (valueOf c))
          else toLocaleString_en n
      | _ \<Rightarrow> toLocaleString_en n)"

text \<open>
  \<^verbatim>\<open>formatStars\<close>.  \<^verbatim>\<open>isNaN(undefined)\<close> is true.  \<^verbatim>\<open>-Infinity\<close> and \<^verbatim>\<open>-0\<close> are below 1000.
  \<^verbatim>\<open>Infinity\<close> is below neither bound; \<^verbatim>\<open>Math.round(Infinity / 1000)\<close> is \<^verbatim>\<open>Infinity\<close>.
\<close>

definition formatStars :: "(number \<Rightarrow> string) \<Rightarrow> jsvalue \<Rightarrow> string" where
  "formatStars toLocaleString count =
     (case count of
        Null \<Rightarrow> ''0''
      | Undefined \<Rightarrow> ''0''
      | Number n \<Rightarrow>
          (case n of
             NaN \<Rightarrow> ''0''
           | NegInfinity \<Rightarrow> toLocaleString n
           | NegZero \<Rightarrow> toLocaleString n
           | PosInfinity \<Rightarrow> Number_toString PosInfinity @ ''k''
           | Num c \<Rightarrow>
               if valueOf c < 1000 then toLocaleString n
               else if valueOf c < 10000 then
                 (let rounded = of_int (Math_round (of_int (valueOf c) / 100)) / 10
                  in toFixed1 rounded @ ''k'')
               else Number_toString (Num (Math_round_thousands c)) @ ''k''))"

text \<open>The star count \<open>n\<close> as a value: there is one when \<open>n\<close> is a safe integer.\<close>

definition starCount :: "int \<Rightarrow> jsvalue option" where
  "starCount n = (if inSafeRange n then Some (Number (Num (safeInteger_from n))) else None)"

text \<open>A host that writes the integers from 0 to 999 in plain digits.\<close>

definition plainDigitsHost :: "(number \<Rightarrow> string) \<Rightarrow> bool" where
  "plainDigitsHost L =
     (\<forall>c. 0 \<le> valueOf c \<and> valueOf c < 1000 \<longrightarrow> L (Num c) = digits (nat (valueOf c)))"

text \<open>
  The component state, with the console as a list of logged lines, and the ways the
  request can end: \<^verbatim>\<open>fetch\<close> rejects, \<^verbatim>\<open>response.json()\<close> rejects, the body is not an
  object (reading a property of \<^verbatim>\<open>null\<close> throws), or the body is an object whose
  \<^verbatim>\<open>stargazers_count\<close> is the given value.
\<close>

record starState =
  stars :: jsvalue
  loading :: bool
  console :: "string list"

datatype fetchOutcome =
    FetchRejected string
  | JsonRejected string
  | BodyNotObject string
  | Body jsvalue

definition initialStarState :: starState where
  "initialStarState = \<lparr>stars = Null, loading = True, console = []\<rparr>"

text \<open>The \<^verbatim>\<open>try\<close> block: an exception is \<open>Inl\<close>.\<close>

definition tryBlock :: "starState \<Rightarrow> fetchOutcome \<Rightarrow> string + starState" where
  "tryBlock st out =
     (case out of
        FetchRejected e \<Rightarrow> Inl e
      | JsonRejected e \<Rightarrow> Inl e
      | BodyNotObject e \<Rightarrow> Inl e
      | Body v \<Rightarrow> Inr (st\<lparr>stars := v\<rparr>))"

text \<open>\<^verbatim>\<open>try { ... } catch (error) { console.error(...) } finally { setLoading(false) }\<close>.\<close>

definition fetchStars :: "starState \<Rightarrow> fetchOutcome \<Rightarrow> string + starState" where
  "fetchStars st out =
     (case tryBlock st out of
        Inl e \<Rightarrow> Inr (st\<lparr>console := console st @ [''Error fetching GitHub stars: '' @ e],
                        loading := False\<rparr>)
      | Inr st' \<Rightarrow> Inr (st'\<lparr>loading := False\<rparr>))"

text \<open>The text in the count box: the spinner while loading, the formatted count after.\<close>

definition displayedCount :: "(number \<Rightarrow> string) \<Rightarrow> starState \<Rightarrow> string option" where
  "displayedCount toLocaleString st =
     (if loading st then None else Some (formatStars toLocaleString (stars st)))"

section \<open>Notions used to state the properties of the path rewriting\<close>

text \<open>
  The leftmost match of an anchored matcher in \<open>s\<close>: the text before the match, and
  the text the matcher leaves after it.
\<close>

fun leftmost :: "(string \<Rightarrow> string option) \<Rightarrow> string \<Rightarrow> (string \<times> string) option" where
  "leftmost m s =
     (case m s of
        Some r \<Rightarrow> Some ([], r)
      | None \<Rightarrow>
          (case s of
             [] \<Rightarrow> None
           | c # cs \<Rightarrow> (case leftmost m cs of None \<Rightarrow> None | Some (a, r) \<Rightarrow> Some (c # a, r))))"

declare leftmost.simps [simp del]

text \<open>The root the rewriting picks for a path: \<^verbatim>\<open>/examples\<close> is tested first.\<close>

definition matchedRoot :: "string \<Rightarrow> string option" where
  "matchedRoot p =
     (if includes_str p ''/examples'' then Some ''/examples''
      else if includes_str p ''/docs'' then Some ''/docs''
      else None)"

text \<open>The text that follows the leftmost occurrence of the matched root.\<close>

definition afterRoot :: "string \<Rightarrow> string option" where
  "afterRoot p =
     (case matchedRoot p of
        None \<Rightarrow> None
      | Some rt \<Rightarrow> map_option snd (leftmost (strip_prefix rt) p))"

definition leadingDigit :: "string \<Rightarrow> bool" where
  "leadingDigit r = (case r of [] \<Rightarrow> False | c # cs \<Rightarrow> isDigit c)"

text \<open>
  The text after the matched root is plain when it starts neither with a digit nor with
  a version marker \<^verbatim>\<open>-v<digits>\<close>.
\<close>

definition plainAfterRoot :: "string \<Rightarrow> bool" where
  "plainAfterRoot p =
     (case afterRoot p of
        None \<Rightarrow> False
      | Some r \<Rightarrow> \<not> leadingDigit r \<and> match_version r = None)"

text \<open>
  A path is settled for \<^verbatim>\<open>v1\<close> when its matched root is not directly followed by a
  digit, and for \<^verbatim>\<open>v0\<close> when, after its leftmost versioned root, no further versioned
  root of the matched root is left: neither a second marker right behind the first nor a
  versioned root later in the path.
\<close>

definition settledV1 :: "string \<Rightarrow> bool" where
  "settledV1 p = (case afterRoot p of None \<Rightarrow> True | Some r \<Rightarrow> \<not> leadingDigit r)"

definition settledV0 :: "string \<Rightarrow> bool" where
  "settledV0 p =
     (case matchedRoot p of
        None \<Rightarrow> True
      | Some rt \<Rightarrow>
          (case leftmost (match_versioned rt) p of
             None \<Rightarrow> True
           | Some (b, r) \<Rightarrow> leftmost (match_versioned rt) (rt @ r) = None))"

section \<open>Scenarios\<close>

text \<open>The concrete inputs on which the properties below are evaluated.\<close>

definition scenario_entries :: "item list" where
  "scenario_entries =
     [\<lparr>href = ''/a'', label = ''a'', description = None,
        customProps = Some \<lparr>tags = Some (TagArray [''x''])\<rparr>\<rparr>,
      \<lparr>href = ''/b'', label = ''b'', description = None,
        customProps = Some \<lparr>tags = Some (TagArray [''y''])\<rparr>\<rparr>,
      \<lparr>href = ''/c'', label = ''c'', description = None,
        customProps = Some \<lparr>tags = Some (TagArray [])\<rparr>\<rparr>,
      \<lparr>href = ''/d'', label = ''d'', description = None, customProps = None\<rparr>]"

definition scenario_store :: store where
  "scenario_store =
     \<lparr>cells = (\<lambda>a. if a = 0 then Some scenario_entries else None), fresh = 1\<rparr>"

definition scenario_options :: "versionOption list" where
  "scenario_options =
     [\<lparr>opt_value = ''A'', opt_label = ''A'', opt_disabled = False\<rparr>,
      \<lparr>opt_value = ''B'', opt_label = ''B'', opt_disabled = True\<rparr>,
      \<lparr>opt_value = ''C'', opt_label = ''C'', opt_disabled = False\<rparr>]"

section \<open>Properties\<close>

subsection \<open>Strings: occurrences and leftmost matches\<close>

lemma strip_prefix_iff: "strip_prefix rt s = Some r \<longleftrightarrow> s = rt @ r"
  by (induction rt s rule: strip_prefix.induct) auto

lemma strip_prefix_None: "strip_prefix rt s = None \<longleftrightarrow> \<not> prefix rt s"
proof -
  have "strip_prefix rt s \<noteq> None \<longleftrightarrow> (\<exists>r. s = rt @ r)"
    using strip_prefix_iff[of rt s] by auto
  then show ?thesis by (auto simp: prefix_def)
qed

lemma includes_sublist: "includes_str s sub \<longleftrightarrow> sublist sub s"
proof (induction s)
  case Nil
  then show ?case by simp
next
  case (Cons c cs)
  then show ?case
    by (simp add: sublist_Cons_right strip_prefix_None)
qed

lemma leftmost_SomeD:
  "leftmost m s = Some (a, r) \<Longrightarrow>
     \<exists>x. s = a @ x \<and> m x = Some r \<and> (\<forall>u v. a = u @ v \<and> v \<noteq> [] \<longrightarrow> m (v @ x) = None)"
proof (induction m s arbitrary: a rule: leftmost.induct)
  case (1 m s)
  show ?case
  proof (cases "m s")
    case (Some r0)
    with "1.prems" have "a = []" "r0 = r"
      by (simp_all add: leftmost.simps[of m s])
    with Some show ?thesis by simp
  next
    case None
    with "1.prems" obtain c cs a' where s: "s = c # cs" and l: "leftmost m cs = Some (a', r)"
      and a: "a = c # a'"
      by (auto simp: leftmost.simps[of m s] split: list.splits option.splits)
    from "1.IH"[OF None s l] obtain x where x: "cs = a' @ x" "m x = Some r"
      "\<forall>u v. a' = u @ v \<and> v \<noteq> [] \<longrightarrow> m (v @ x) = None" by blast
    have "\<forall>u v. a = u @ v \<and> v \<noteq> [] \<longrightarrow> m (v @ x) = None"
    proof (intro allI impI)
      fix u v assume uv: "a = u @ v \<and> v \<noteq> []"
      show "m (v @ x) = None"
      proof (cases u)
        case Nil
        with uv a have "v @ x = s" using s x(1) by simp
        with None show ?thesis by simp
      next
        case (Cons d u')
        with uv a have "a' = u' @ v" by simp
        with x(3) uv show ?thesis by blast
      qed
    qed
    with x s a show ?thesis by auto
  qed
qed

lemma leftmost_SomeI:
  "m x = Some r \<Longrightarrow> (\<forall>u v. a = u @ v \<and> v \<noteq> [] \<longrightarrow> m (v @ x) = None) \<Longrightarrow>
     leftmost m (a @ x) = Some (a, r)"
proof (induction a)
  case Nil
  then show ?case by (simp add: leftmost.simps[of m x])
next
  case (Cons c a)
  have "m ((c # a) @ x) = None" using Cons.prems(2) by blast
  moreover have "leftmost m (a @ x) = Some (a, r)"
  proof (rule Cons.IH[OF Cons.prems(1)], intro allI impI)
    fix u v assume "a = u @ v \<and> v \<noteq> []"
    then have "c # a = (c # u) @ v \<and> v \<noteq> []" by simp
    with Cons.prems(2) show "m (v @ x) = None" by blast
  qed
  ultimately show ?case by (simp add: leftmost.simps[of m "c # a @ x"])
qed

lemma leftmost_NoneD: "leftmost m s = None \<Longrightarrow> s = u @ v \<Longrightarrow> m v = None"
proof (induction m s arbitrary: u rule: leftmost.induct)
  case (1 m s)
  from "1.prems"(1) have ms: "m s = None"
    by (auto simp: leftmost.simps[of m s] split: option.splits)
  show ?case
  proof (cases u)
    case Nil
    with "1.prems"(2) ms show ?thesis by simp
  next
    case (Cons c u')
    with "1.prems"(2) have s: "s = c # (u' @ v)" by simp
    with "1.prems"(1) ms have "leftmost m (u' @ v) = None"
      by (auto simp: leftmost.simps[of m "c # u' @ v"] split: option.splits)
    from "1.IH"[OF ms s this] show ?thesis by simp
  qed
qed

lemma leftmost_NoneI: "(\<forall>u v. s = u @ v \<longrightarrow> m v = None) \<Longrightarrow> leftmost m s = None"
proof (induction s)
  case Nil
  then show ?case by (simp add: leftmost.simps[of m "[]"])
next
  case (Cons c cs)
  have "m (c # cs) = None" using Cons.prems by blast
  moreover have "leftmost m cs = None"
  proof (rule Cons.IH, intro allI impI)
    fix u v assume "cs = u @ v"
    then have "c # cs = (c # u) @ v" by simp
    with Cons.prems show "m v = None" by blast
  qed
  ultimately show ?case by (simp add: leftmost.simps[of m "c # cs"])
qed

lemma replace_first_leftmost:
  "replace_first m repl s = (case leftmost m s of None \<Rightarrow> s | Some (a, r) \<Rightarrow> a @ repl @ r)"
proof (induction m repl s rule: replace_first.induct)
  case (1 m repl s)
  show ?case
  proof (cases "m s")
    case (Some r)
    then show ?thesis
      by (simp add: replace_first.simps[of m repl s] leftmost.simps[of m s])
  next
    case None
    show ?thesis
    proof (cases s)
      case Nil
      with None show ?thesis
        by (simp add: replace_first.simps[of m repl "[]"] leftmost.simps[of m "[]"])
    next
      case (Cons c cs)
      from "1.IH"[OF None Cons] None Cons show ?thesis
        by (simp add: replace_first.simps[of m repl "c # cs"] leftmost.simps[of m "c # cs"]
                 split: option.splits)
    qed
  qed
qed

lemma prefix_long: "length rt \<le> length z \<Longrightarrow> prefix rt (z @ y) \<longleftrightarrow> prefix rt z"
  by (auto simp: prefix_append)

lemma leftmost_cong_None:
  assumes "\<And>v. m v = None \<longleftrightarrow> m' v = None"
  shows "leftmost m s = None \<longleftrightarrow> leftmost m' s = None"
proof
  assume "leftmost m s = None"
  then have "\<forall>u v. s = u @ v \<longrightarrow> m' v = None" using leftmost_NoneD assms by blast
  then show "leftmost m' s = None" by (rule leftmost_NoneI)
next
  assume "leftmost m' s = None"
  then have "\<forall>u v. s = u @ v \<longrightarrow> m v = None" using leftmost_NoneD assms by blast
  then show "leftmost m s = None" by (rule leftmost_NoneI)
qed

lemma leftmost_same_position:
  assumes n: "\<And>v. m v = None \<longleftrightarrow> m' v = None"
    and l: "leftmost m s = Some (a, r)"
  shows "\<exists>x r'. s = a @ x \<and> m x = Some r \<and> m' x = Some r' \<and> leftmost m' s = Some (a, r')"
proof -
  from leftmost_SomeD[OF l] obtain x where x: "s = a @ x" "m x = Some r"
    "\<forall>u v. a = u @ v \<and> v \<noteq> [] \<longrightarrow> m (v @ x) = None" by blast
  have "m' x \<noteq> None" using x(2) n[of x] by simp
  then obtain r' where r': "m' x = Some r'" by blast
  have "\<forall>u v. a = u @ v \<and> v \<noteq> [] \<longrightarrow> m' (v @ x) = None" using x(3) n by blast
  from leftmost_SomeI[OF r' this] x r' show ?thesis by auto
qed

lemma match_optional_None: "strip_prefix rt v = None \<longleftrightarrow> match_optional rt v = None"
  by (auto simp: match_optional_def split: option.splits)

lemma match_optional_at: "match_optional rt (rt @ r) = Some (case match_version r of Some r' \<Rightarrow> r' | None \<Rightarrow> r)"
  using strip_prefix_iff[of rt "rt @ r" r]
  by (simp add: match_optional_def split: option.splits)

lemma leftmost_optional:
  "leftmost (match_optional rt) s =
     (case leftmost (strip_prefix rt) s of
        None \<Rightarrow> None
      | Some (a, r) \<Rightarrow> Some (a, case match_version r of Some r' \<Rightarrow> r' | None \<Rightarrow> r))"
proof (cases "leftmost (strip_prefix rt) s")
  case None
  then show ?thesis
    using leftmost_cong_None[of "strip_prefix rt" "match_optional rt" s] match_optional_None
    by simp
next
  case (Some ar)
  obtain a r where ar: "ar = (a, r)" by (cases ar)
  from leftmost_same_position[of "strip_prefix rt" "match_optional rt" s a r]
    match_optional_None Some ar
  obtain x r' where x: "s = a @ x" "strip_prefix rt x = Some r" "match_optional rt x = Some r'"
    "leftmost (match_optional rt) s = Some (a, r')" by blast
  from x(2) have "x = rt @ r" by (simp add: strip_prefix_iff)
  with x(3) match_optional_at[of rt r] have "r' = (case match_version r of Some r' \<Rightarrow> r' | None \<Rightarrow> r)"
    by simp
  with x(4) Some ar show ?thesis by simp
qed

lemma leftmost_root_decomp:
  "leftmost (strip_prefix rt) s = Some (a, r) \<Longrightarrow> s = a @ rt @ r"
  using leftmost_SomeD[of "strip_prefix rt" s a r] by (auto simp: strip_prefix_iff)

lemma leftmost_root_stable:
  assumes "leftmost (strip_prefix rt) s = Some (a, r)"
  shows "leftmost (strip_prefix rt) (a @ rt @ y) = Some (a, y)"
proof -
  from leftmost_SomeD[OF assms] obtain x where x: "s = a @ x" "strip_prefix rt x = Some r"
    "\<forall>u v. a = u @ v \<and> v \<noteq> [] \<longrightarrow> strip_prefix rt (v @ x) = None" by blast
  from x(2) have xr: "x = rt @ r" by (simp add: strip_prefix_iff)
  have "\<forall>u v. a = u @ v \<and> v \<noteq> [] \<longrightarrow> strip_prefix rt (v @ rt @ y) = None"
  proof (intro allI impI)
    fix u v assume uv: "a = u @ v \<and> v \<noteq> []"
    with x(3) xr have "\<not> prefix rt ((v @ rt) @ r)" by (simp add: strip_prefix_None)
    then have "\<not> prefix rt (v @ rt)" using prefix_long[of rt "v @ rt" r] by simp
    then have "\<not> prefix rt ((v @ rt) @ y)" using prefix_long[of rt "v @ rt" y] by simp
    then show "strip_prefix rt (v @ rt @ y) = None" by (simp add: strip_prefix_None)
  qed
  moreover have "strip_prefix rt (rt @ y) = Some y" by (simp add: strip_prefix_iff)
  ultimately show ?thesis using leftmost_SomeI[of "strip_prefix rt" "rt @ y" y a] by simp
qed

lemma match_versioned_None: "strip_prefix rt v = None \<Longrightarrow> match_versioned rt v = None"
  by (simp add: match_versioned_def)

lemma match_versioned_at: "match_versioned rt (rt @ r) = match_version r"
  using strip_prefix_iff[of rt "rt @ r" r] by (simp add: match_versioned_def)

lemma leftmost_versioned_at_root:
  assumes l: "leftmost (strip_prefix rt) s = Some (a, r)" and m: "match_version r = Some r'"
  shows "leftmost (match_versioned rt) s = Some (a, r')"
proof -
  from leftmost_SomeD[OF l] obtain x where x: "s = a @ x" "strip_prefix rt x = Some r"
    "\<forall>u v. a = u @ v \<and> v \<noteq> [] \<longrightarrow> strip_prefix rt (v @ x) = None" by blast
  from x(2) have xr: "x = rt @ r" by (simp add: strip_prefix_iff)
  have 1: "match_versioned rt x = Some r'" using xr m by (simp add: match_versioned_at)
  have 2: "\<forall>u v. a = u @ v \<and> v \<noteq> [] \<longrightarrow> match_versioned rt (v @ x) = None"
    using x(3) match_versioned_None by blast
  from leftmost_SomeI[OF 1 2] x(1) show ?thesis by simp
qed

subsection \<open>The version marker\<close>

lemma isDigit_1: "isDigit (CHR ''1'')" by (simp add: isDigit_def)

lemma isDigit_not_dash: "isDigit c \<Longrightarrow> c \<noteq> CHR ''-''"
  by (auto simp: isDigit_def)

lemma isDigit_not_slash: "isDigit c \<Longrightarrow> c \<noteq> CHR ''/''"
  by (auto simp: isDigit_def)

lemma dropWhile_plain: "\<not> leadingDigit r \<Longrightarrow> dropWhile isDigit r = r"
  by (cases r) (simp_all add: leadingDigit_def)

lemma dropWhile_leading: "leadingDigit r \<Longrightarrow> length (dropWhile isDigit r) < length r"
  by (cases r) (simp_all add: leadingDigit_def length_dropWhile_le le_imp_less_Suc)

lemma not_leading_dropWhile: "\<not> leadingDigit (dropWhile isDigit r)"
proof (cases "dropWhile isDigit r")
  case Nil
  then show ?thesis by (simp only: leadingDigit_def list.case simp_thms)
next
  case (Cons c cs)
  with hd_dropWhile[of isDigit r] have "\<not> isDigit c" by simp
  with Cons show ?thesis by (simp only: leadingDigit_def list.case simp_thms)
qed

lemma match_version_v1: "match_version (''-v1'' @ r) = Some (dropWhile isDigit r)"
  by (simp add: match_version_def isDigit_1)

lemma match_version_SomeD:
  "match_version r = Some r' \<Longrightarrow>
     \<exists>d t. r = ''-v'' @ d # t \<and> isDigit d \<and> r' = dropWhile isDigit t"
proof -
  assume a: "match_version r = Some r'"
  then obtain r0 where r0: "strip_prefix ''-v'' r = Some r0" "takeWhile isDigit r0 \<noteq> []"
    "r' = dropWhile isDigit r0"
    by (auto simp: match_version_def split: option.splits if_splits)
  from r0(2) obtain d t where dt: "r0 = d # t" "isDigit d"
    by (cases r0) (auto split: if_splits)
  from r0(1) have "r = ''-v'' @ r0" by (simp only: strip_prefix_iff)
  with dt r0(3) show ?thesis by auto
qed

lemma match_version_digit: "isDigit d \<Longrightarrow> match_version (''-v'' @ d # t) = Some (dropWhile isDigit t)"
  by (simp add: match_version_def)

lemma match_version_length: "match_version r = Some r' \<Longrightarrow> length r' < length r"
proof -
  assume "match_version r = Some r'"
  from match_version_SomeD[OF this] obtain d t where
    "r = ''-v'' @ d # t" "r' = dropWhile isDigit t" by blast
  then show ?thesis using length_dropWhile_le[of isDigit t] by simp
qed

lemma match_version_suffix: "match_version r = Some r' \<Longrightarrow> suffix r' r"
proof -
  assume "match_version r = Some r'"
  from match_version_SomeD[OF this] obtain d t where
    dt: "r = ''-v'' @ d # t" "r' = dropWhile isDigit t" by blast
  have "suffix (dropWhile isDigit t) t" by (rule suffix_dropWhile)
  then have "suffix (dropWhile isDigit t) ((''-v'' @ [d]) @ t)" by (rule suffix_appendI)
  with dt show ?thesis by simp
qed

lemma match_version_plain: "match_version r = Some r' \<Longrightarrow> \<not> leadingDigit r'"
  using match_version_SomeD[of r r'] not_leading_dropWhile by auto

lemma match_version_leading: "leadingDigit r \<Longrightarrow> match_version r = None"
  by (cases r) (auto simp: leadingDigit_def match_version_def dest: isDigit_not_dash)

subsection \<open>Occurrences of a root around a rewritten root\<close>

lemma sublist_skip_free:
  assumes "c \<notin> set m"
  shows "sublist (c # w) (m @ zs) \<longleftrightarrow> sublist (c # w) zs"
proof
  assume "sublist (c # w) (m @ zs)"
  then consider "sublist (c # w) m" | "sublist (c # w) zs"
    | xs1 xs2 where "c # w = xs1 @ xs2" "suffix xs1 m" "prefix xs2 zs"
    unfolding sublist_append by blast
  then show "sublist (c # w) zs"
  proof cases
    case 1
    from set_mono_sublist[OF this] assms show ?thesis by simp
  next
    case 2
    then show ?thesis .
  next
    case 3
    show ?thesis
    proof (cases xs1)
      case Nil
      with 3 show ?thesis by simp
    next
      case (Cons d ds)
      with 3(1) have "c \<in> set xs1" by simp
      with set_mono_suffix[OF 3(2)] assms show ?thesis by blast
    qed
  qed
next
  assume "sublist (c # w) zs"
  then show "sublist (c # w) (m @ zs)" by (simp add: sublist_append)
qed

lemma sublist_split_at_head:
  assumes "c \<notin> set w"
  shows "sublist (c # w) (ys @ c # zs) \<longleftrightarrow> sublist (c # w) ys \<or> sublist (c # w) (c # zs)"
proof
  assume "sublist (c # w) (ys @ c # zs)"
  then consider "sublist (c # w) ys" | "sublist (c # w) (c # zs)"
    | xs1 xs2 where "c # w = xs1 @ xs2" "suffix xs1 ys" "prefix xs2 (c # zs)"
    unfolding sublist_append by blast
  then show "sublist (c # w) ys \<or> sublist (c # w) (c # zs)"
  proof cases
    case 3
    show ?thesis
    proof (cases xs1)
      case Nil
      with 3 show ?thesis by simp
    next
      case (Cons d ds)
      with 3(1) have w: "w = ds @ xs2" by simp
      show ?thesis
      proof (cases xs2)
        case Nil
        with 3 show ?thesis by simp
      next
        case (Cons e es)
        with 3(3) have "e = c" by simp
        with Cons w assms show ?thesis by simp
      qed
    qed
  qed simp_all
next
  assume "sublist (c # w) ys \<or> sublist (c # w) (c # zs)"
  then show "sublist (c # w) (ys @ c # zs)" by (auto simp: sublist_append)
qed

lemma examples_around_docs:
  "sublist ''/examples'' (b @ ''/docs'' @ x) \<longleftrightarrow> sublist ''/examples'' b \<or> sublist ''/examples'' x"
proof -
  have "sublist ''/examples'' (b @ CHR ''/'' # (''docs'' @ x))
          \<longleftrightarrow> sublist ''/examples'' b \<or> sublist ''/examples'' (CHR ''/'' # (''docs'' @ x))"
    by (rule sublist_split_at_head) simp
  moreover have "sublist ''/examples'' (CHR ''/'' # (''docs'' @ x)) \<longleftrightarrow> sublist ''/examples'' (''docs'' @ x)"
    by (subst sublist_Cons_right) simp
  moreover have "sublist ''/examples'' (''docs'' @ x) \<longleftrightarrow> sublist ''/examples'' x"
    by (rule sublist_skip_free) simp
  ultimately show ?thesis by simp
qed

lemma examples_skip_v1: "sublist ''/examples'' (''-v1'' @ x) \<longleftrightarrow> sublist ''/examples'' x"
  by (rule sublist_skip_free) simp

lemma matchedRoot_cases:
  "matchedRoot q = Some rt \<longleftrightarrow>
     (rt = ''/examples'' \<and> sublist ''/examples'' q)
   \<or> (rt = ''/docs'' \<and> \<not> sublist ''/examples'' q \<and> sublist ''/docs'' q)"
  by (auto simp: matchedRoot_def includes_sublist)

lemma matchedRoot_None: "matchedRoot q = None \<longleftrightarrow> \<not> sublist ''/examples'' q \<and> \<not> sublist ''/docs'' q"
  by (auto simp: matchedRoot_def includes_sublist)

lemma matchedRoot_keep:
  assumes m: "matchedRoot (a @ rt @ r) = Some rt"
    and y: "sublist ''/examples'' y \<longrightarrow> sublist ''/examples'' r"
  shows "matchedRoot (a @ rt @ y) = Some rt"
proof -
  from m consider "rt = ''/examples''"
    | "rt = ''/docs''" "\<not> sublist ''/examples'' (a @ ''/docs'' @ r)"
    unfolding matchedRoot_cases by blast
  then show ?thesis
  proof cases
    case 1
    have "sublist rt (a @ rt @ y)" by (rule sublist_appendI)
    with 1 show ?thesis unfolding matchedRoot_cases by blast
  next
    case 2
    from 2(2) y have "\<not> sublist ''/examples'' (a @ ''/docs'' @ y)"
      unfolding examples_around_docs by blast
    moreover have "sublist rt (a @ rt @ y)" by (rule sublist_appendI)
    ultimately show ?thesis using 2(1) unfolding matchedRoot_cases by blast
  qed
qed

lemma matchedRoot_occurs:
  assumes "matchedRoot p = Some rt"
  shows "\<exists>a r. leftmost (strip_prefix rt) p = Some (a, r)"
proof -
  from assms have "sublist rt p" unfolding matchedRoot_cases by blast
  then obtain u v where p: "p = u @ rt @ v" by (auto simp: sublist_def)
  have s: "strip_prefix rt (rt @ v) = Some v" by (simp add: strip_prefix_iff)
  have "leftmost (strip_prefix rt) p \<noteq> None"
  proof
    assume "leftmost (strip_prefix rt) p = None"
    from leftmost_NoneD[OF this p] s show False by simp
  qed
  then show ?thesis by (cases "leftmost (strip_prefix rt) p") auto
qed

lemma root_shape:
  "matchedRoot p = Some rt \<Longrightarrow> \<exists>w. rt = CHR ''/'' # w \<and> CHR ''/'' \<notin> set w"
  unfolding matchedRoot_cases by auto

lemma leftmost_skip:
  "(\<forall>u v. b = u @ v \<and> v \<noteq> [] \<longrightarrow> m (v @ x) = None) \<Longrightarrow>
     leftmost m (b @ x) = (case leftmost m x of None \<Rightarrow> None | Some (c, z) \<Rightarrow> Some (b @ c, z))"
proof (induction b)
  case Nil
  then show ?case by (simp split: option.splits)
next
  case (Cons e b)
  have 1: "m (e # b @ x) = None" using Cons.prems by (metis append_Cons list.distinct(1) append_Nil)
  have "\<forall>u v. b = u @ v \<and> v \<noteq> [] \<longrightarrow> m (v @ x) = None"
  proof (intro allI impI)
    fix u v assume "b = u @ v \<and> v \<noteq> []"
    then have "e # b = (e # u) @ v \<and> v \<noteq> []" by simp
    with Cons.prems show "m (v @ x) = None" by blast
  qed
  from Cons.IH[OF this] 1 show ?case
    by (simp add: leftmost.simps[of m "e # b @ x"] split: option.splits)
qed

lemma versioned_fixpoint:
  "replace_first (match_versioned rt) rt s = s \<longleftrightarrow> leftmost (match_versioned rt) s = None"
proof (cases "leftmost (match_versioned rt) s")
  case None
  then show ?thesis by (simp add: replace_first_leftmost)
next
  case (Some az)
  obtain a z where az: "az = (a, z)" by (cases az)
  from leftmost_SomeD[of "match_versioned rt" s a z] Some az
  obtain x where x: "s = a @ x" "match_versioned rt x = Some z" by blast
  from x(2) obtain y where y: "x = rt @ y" "match_version y = Some z"
    by (auto simp: match_versioned_def strip_prefix_iff split: Option.bind_splits)
  from match_version_length[OF y(2)] have "a @ rt @ z \<noteq> a @ rt @ y" by auto
  with Some az x(1) y(1) show ?thesis by (simp add: replace_first_leftmost)
qed

lemma versioned_no_earlier:
  assumes rt: "rt = CHR ''/'' # w" "CHR ''/'' \<notin> set w"
    and nm: "match_versioned rt (v @ rt @ y) = None" and v: "v \<noteq> []"
  shows "match_versioned rt (v @ rt @ r') = None"
proof (rule ccontr)
  assume "match_versioned rt (v @ rt @ r') \<noteq> None"
  then obtain z where "match_versioned rt (v @ rt @ r') = Some z" by blast
  then obtain y2 where y2: "v @ rt @ r' = rt @ y2" "match_version y2 = Some z"
    by (auto simp: match_versioned_def strip_prefix_iff split: Option.bind_splits)
  from match_version_SomeD[OF y2(2)] obtain d t where dt: "y2 = ''-v'' @ d # t" "isDigit d"
    by blast
  define q where "q = rt @ ''-v'' @ [d]"
  from y2(1) dt(1) have eq: "v @ (rt @ r') = q @ t" by (simp add: q_def)
  then consider us where "v = q @ us" | us where "v @ us = q" "rt @ r' = us @ t" "us \<noteq> []"
    unfolding append_eq_append_conv2 by (metis append_Nil2)
  then show False
  proof cases
    case 1
    then have "v @ rt @ y = rt @ (''-v'' @ d # (us @ rt @ y))" by (simp add: q_def)
    then have "match_versioned rt (v @ rt @ y) = match_version (''-v'' @ d # (us @ rt @ y))"
      by (simp only: match_versioned_at)
    with match_version_digit[OF dt(2)] nm show False by simp
  next
    case 2
    from 2(2,3) rt(1) have h: "hd us = CHR ''/''" by (cases us) auto
    from v 2(1) obtain v0 v' where vv: "v = v0 # v'" by (cases v) auto
    with 2(1) have "tl q = v' @ us" by (metis list.sel(3) append_Cons)
    with h 2(3) have "CHR ''/'' \<in> set (tl q)" by (cases us) auto
    moreover have "tl q = w @ ''-v'' @ [d]" by (simp add: q_def rt(1))
    ultimately show False using rt(2) isDigit_not_slash[OF dt(2)] by auto
  qed
qed

subsection \<open>The path rewriting\<close>

lemma newPath_v1:
  "newPath ''v1'' p =
     (case matchedRoot p of
        None \<Rightarrow> p
      | Some rt \<Rightarrow> replace_first (match_optional rt) (rt @ ''-v1'') p)"
  by (simp add: newPath_def matchedRoot_def)

lemma newPath_v0:
  "newPath ''v0'' p =
     (case matchedRoot p of
        None \<Rightarrow> p
      | Some rt \<Rightarrow> replace_first (match_versioned rt) rt p)"
  by (simp add: newPath_def matchedRoot_def)

lemma newPath_other: "v \<noteq> ''v0'' \<Longrightarrow> v \<noteq> ''v1'' \<Longrightarrow> newPath v p = p"
  by (simp add: newPath_def)

lemma strip_marker_examples:
  "sublist ''/examples'' (case match_version r of Some r' \<Rightarrow> r' | None \<Rightarrow> r)
     \<Longrightarrow> sublist ''/examples'' r"
proof (cases "match_version r")
  case None
  then show "sublist ''/examples'' (case match_version r of Some r' \<Rightarrow> r' | None \<Rightarrow> r)
     \<Longrightarrow> sublist ''/examples'' r" by simp
next
  case (Some r')
  assume "sublist ''/examples'' (case match_version r of Some r' \<Rightarrow> r' | None \<Rightarrow> r)"
  with Some have "sublist ''/examples'' r'" by simp
  moreover from match_version_suffix[OF Some] have "sublist r' r" by (rule suffix_imp_sublist)
  ultimately show "sublist ''/examples'' r" by (rule sublist_order.order.trans)
qed

text \<open>The shape of the path after switching to v1.\<close>

lemma v1_shape:
  assumes m: "matchedRoot p = Some rt" and l: "leftmost (strip_prefix rt) p = Some (a, r)"
  defines "r1 \<equiv> (case match_version r of Some r' \<Rightarrow> r' | None \<Rightarrow> r)"
  shows "newPath ''v1'' p = a @ rt @ ''-v1'' @ r1"
    and "matchedRoot (a @ rt @ ''-v1'' @ r1) = Some rt"
    and "leftmost (strip_prefix rt) (a @ rt @ ''-v1'' @ r1) = Some (a, ''-v1'' @ r1)"
proof -
  show "newPath ''v1'' p = a @ rt @ ''-v1'' @ r1"
    using m l by (simp add: newPath_v1 replace_first_leftmost leftmost_optional r1_def)
  have p: "p = a @ rt @ r" by (rule leftmost_root_decomp[OF l])
  have "sublist ''/examples'' (''-v1'' @ r1) \<longrightarrow> sublist ''/examples'' r"
    unfolding examples_skip_v1 r1_def using strip_marker_examples by blast
  with m p show "matchedRoot (a @ rt @ ''-v1'' @ r1) = Some rt"
    using matchedRoot_keep[of a rt r "''-v1'' @ r1"] by simp
  show "leftmost (strip_prefix rt) (a @ rt @ ''-v1'' @ r1) = Some (a, ''-v1'' @ r1)"
    by (rule leftmost_root_stable[OF l])
qed

lemma match_version_v1_Cons:
  "match_version (CHR ''-'' # CHR ''v'' # CHR ''1'' # r) = Some (dropWhile isDigit r)"
  using match_version_v1[of r] by simp

lemma v1_then_v1:
  assumes m: "matchedRoot p = Some rt" and l: "leftmost (strip_prefix rt) p = Some (a, r)"
  defines "r1 \<equiv> (case match_version r of Some r' \<Rightarrow> r' | None \<Rightarrow> r)"
  shows "newPath ''v1'' (newPath ''v1'' p) = a @ rt @ ''-v1'' @ dropWhile isDigit r1"
proof -
  note s = v1_shape[OF m l, folded r1_def]
  have "newPath ''v1'' (a @ rt @ ''-v1'' @ r1)
          = a @ rt @ ''-v1'' @ (case match_version (''-v1'' @ r1) of Some r' \<Rightarrow> r' | None \<Rightarrow> ''-v1'' @ r1)"
    using s(2) s(3)
    by (simp add: newPath_v1 replace_first_leftmost leftmost_optional match_version_v1_Cons)
  then show ?thesis unfolding s(1) by (simp only: match_version_v1 option.case)
qed

lemma v1_then_v0:
  assumes m: "matchedRoot p = Some rt" and l: "leftmost (strip_prefix rt) p = Some (a, r)"
  defines "r1 \<equiv> (case match_version r of Some r' \<Rightarrow> r' | None \<Rightarrow> r)"
  shows "newPath ''v0'' (newPath ''v1'' p) = a @ rt @ dropWhile isDigit r1"
proof -
  note s = v1_shape[OF m l, folded r1_def]
  have "leftmost (match_versioned rt) (a @ rt @ ''-v1'' @ r1) = Some (a, dropWhile isDigit r1)"
    by (rule leftmost_versioned_at_root[OF s(3) match_version_v1])
  with s(2) have "newPath ''v0'' (a @ rt @ ''-v1'' @ r1) = a @ rt @ dropWhile isDigit r1"
    by (simp add: newPath_v0 replace_first_leftmost)
  then show ?thesis unfolding s(1) .
qed

lemma strip_marker_leading:
  "leadingDigit (case match_version r of Some r' \<Rightarrow> r' | None \<Rightarrow> r) \<longleftrightarrow> leadingDigit r"
proof (cases "match_version r")
  case None
  then show ?thesis by simp
next
  case (Some r')
  from match_version_plain[OF Some] match_version_leading[of r] Some show ?thesis by auto
qed

lemma dropWhile_fix: "dropWhile isDigit r = r \<longleftrightarrow> \<not> leadingDigit r"
  using dropWhile_plain[of r] dropWhile_leading[of r] by auto

lemma afterRoot_Some:
  "afterRoot p = Some r \<longleftrightarrow> (\<exists>rt a. matchedRoot p = Some rt \<and> leftmost (strip_prefix rt) p = Some (a, r))"
  by (auto simp: afterRoot_def split: option.splits)

lemma afterRoot_None: "afterRoot p = None \<longleftrightarrow> matchedRoot p = None"
  using matchedRoot_occurs[of p] by (auto simp: afterRoot_def split: option.splits)

lemma roundtrip_iff:
  assumes m: "matchedRoot p = Some rt" and l: "leftmost (strip_prefix rt) p = Some (a, r)"
  shows "newPath ''v0'' (newPath ''v1'' p) = p \<longleftrightarrow> \<not> leadingDigit r \<and> match_version r = None"
proof (cases "match_version r")
  case None
  have "newPath ''v0'' (newPath ''v1'' p) = a @ rt @ dropWhile isDigit r"
    using v1_then_v0[OF m l] None by simp
  with leftmost_root_decomp[OF l] None show ?thesis by (simp add: dropWhile_fix)
next
  case (Some r')
  have "newPath ''v0'' (newPath ''v1'' p) = a @ rt @ dropWhile isDigit r'"
    using v1_then_v0[OF m l] Some by simp
  moreover have "length (dropWhile isDigit r') < length r"
    using match_version_length[OF Some] length_dropWhile_le[of isDigit r'] by linarith
  ultimately have "newPath ''v0'' (newPath ''v1'' p) \<noteq> a @ rt @ r" by auto
  with leftmost_root_decomp[OF l] Some show ?thesis by simp
qed

lemma v1_idempotent_iff:
  "newPath ''v1'' (newPath ''v1'' p) = newPath ''v1'' p \<longleftrightarrow> settledV1 p"
proof (cases "matchedRoot p")
  case None
  then show ?thesis using afterRoot_None[of p] by (simp add: newPath_v1 settledV1_def)
next
  case (Some rt)
  from matchedRoot_occurs[OF Some] obtain a r where l: "leftmost (strip_prefix rt) p = Some (a, r)"
    by blast
  have ar: "afterRoot p = Some r" using Some l by (simp add: afterRoot_def)
  show ?thesis
    unfolding v1_then_v1[OF Some l] unfolding v1_shape(1)[OF Some l] settledV1_def ar
    by (simp add: dropWhile_fix strip_marker_leading)
qed

lemma v0_idempotent_iff:
  "newPath ''v0'' (newPath ''v0'' p) = newPath ''v0'' p \<longleftrightarrow> settledV0 p"
proof (cases "matchedRoot p")
  case None
  then show ?thesis by (simp add: newPath_v0 settledV0_def)
next
  case (Some rt)
  show ?thesis
  proof (cases "leftmost (match_versioned rt) p")
    case None
    with Some have "newPath ''v0'' p = p" by (simp add: newPath_v0 replace_first_leftmost)
    with Some None show ?thesis by (simp add: settledV0_def)
  next
    case (Some bz)
    obtain b z where bz: "bz = (b, z)" by (cases bz)
    note l = Some[unfolded bz]
    from leftmost_SomeD[OF l] obtain x where x: "p = b @ x" "match_versioned rt x = Some z"
      "\<forall>u v. b = u @ v \<and> v \<noteq> [] \<longrightarrow> match_versioned rt (v @ x) = None" by blast
    from x(2) obtain y where y: "x = rt @ y" "match_version y = Some z"
      by (auto simp: match_versioned_def strip_prefix_iff split: Option.bind_splits)
    from root_shape[OF \<open>matchedRoot p = Some rt\<close>] obtain w where
      w: "rt = CHR ''/'' # w" "CHR ''/'' \<notin> set w" by blast
    have p0: "newPath ''v0'' p = b @ rt @ z"
      using \<open>matchedRoot p = Some rt\<close> l by (simp add: newPath_v0 replace_first_leftmost)
    have "sublist z y" using match_version_suffix[OF y(2)] by (rule suffix_imp_sublist)
    then have "sublist ''/examples'' z \<longrightarrow> sublist ''/examples'' y"
      using sublist_order.order.trans by blast
    with \<open>matchedRoot p = Some rt\<close> x(1) y(1) have m0: "matchedRoot (b @ rt @ z) = Some rt"
      using matchedRoot_keep[of b rt y z] by simp
    have "\<forall>u v. b = u @ v \<and> v \<noteq> [] \<longrightarrow> match_versioned rt (v @ rt @ z) = None"
    proof (intro allI impI)
      fix u v assume uv: "b = u @ v \<and> v \<noteq> []"
      with x(3) y(1) have "match_versioned rt (v @ rt @ y) = None" by simp
      from versioned_no_earlier[OF w this] uv show "match_versioned rt (v @ rt @ z) = None"
        by simp
    qed
    from leftmost_skip[OF this]
    have sk: "leftmost (match_versioned rt) (b @ rt @ z) = None
                \<longleftrightarrow> leftmost (match_versioned rt) (rt @ z) = None"
      by (simp split: option.splits)
    have "newPath ''v0'' (b @ rt @ z) = b @ rt @ z
            \<longleftrightarrow> leftmost (match_versioned rt) (b @ rt @ z) = None"
      using m0 by (simp add: newPath_v0 versioned_fixpoint)
    with sk show ?thesis
      unfolding p0 settledV0_def using \<open>matchedRoot p = Some rt\<close> l by simp
  qed
qed

subsection \<open>Switching versions\<close>

text \<open>The equations that evaluate the rewriting on a given path.\<close>

lemmas path_eval = newPath_def replace_first.simps match_versioned_def match_optional_def
  match_version_def isDigit_def detectVersion_def mount_def handleVersionChange_def

lemmas root_eval = afterRoot_def matchedRoot_def leftmost.simps plainAfterRoot_def
  leadingDigit_def settledV0_def settledV1_def isDigit_def

lemma includes_str_append: "includes_str p (x @ y) \<Longrightarrow> includes_str p x"
  unfolding includes_sublist
  using sublist_order.order.trans[of x "x @ y" p] by simp

lemma detectVersion_unknown:
  "\<not> includes_str p ''/examples'' \<Longrightarrow> \<not> includes_str p ''/docs'' \<Longrightarrow> detectVersion p = ''v0''"
  using includes_str_append[of p "''/examples''" "''-v1''"]
        includes_str_append[of p "''/docs''" "''-v1''"]
  by (auto simp: detectVersion_def)

text \<open>
  Claim C1 (as amended).  For a path that contains neither \<^verbatim>\<open>/examples\<close> nor \<^verbatim>\<open>/docs\<close>
  no root is rewritten: the target path computed is the path itself, and selecting
  another version closes the menu and assigns this same path to
  \<^verbatim>\<open>window.location.href\<close>.  In the variant with the disabled preview the base path
  computed for such a path is empty, but the page is then at \<^verbatim>\<open>v0\<close>, and selecting
  \<^verbatim>\<open>v1\<close> (disabled) or \<^verbatim>\<open>v0\<close> (current) requests no navigation.
\<close>

theorem unknown_root_keeps_path:
  "\<not> includes_str p ''/examples'' \<Longrightarrow> \<not> includes_str p ''/docs'' \<Longrightarrow>
     newPath val p = p
   \<and> (pathname st = p \<and> val \<noteq> currentVersion st \<longrightarrow>
        handleVersionChange st val = (st\<lparr>isOpen := False\<rparr>, Some p))
   \<and> basePath (Some val) p = []
   \<and> detectVersion p = ''v0''
   \<and> handleVersionChange_preview options (mount p) ''v1'' = (mount p, None)
   \<and> handleVersionChange_preview options (mount p) ''v0'' = (mount p, None)"
proof -
  assume a: "\<not> includes_str p ''/examples''" "\<not> includes_str p ''/docs''"
  have 1: "newPath val p = p" using a by (simp add: newPath_def)
  have 2: "pathname st = p \<and> val \<noteq> currentVersion st \<longrightarrow>
        handleVersionChange st val = (st\<lparr>isOpen := False\<rparr>, Some p)"
    using 1 by (auto simp: handleVersionChange_def)
  have 3: "basePath (Some val) p = []" using a by (simp add: basePath_def)
  have 4: "detectVersion p = ''v0''" by (rule detectVersion_unknown[OF a])
  have 5: "handleVersionChange_preview options (mount p) ''v1'' = (mount p, None)"
    by (simp add: handleVersionChange_preview_def options_def)
  have 6: "handleVersionChange_preview options (mount p) ''v0'' = (mount p, None)"
    using 4 by (simp add: handleVersionChange_preview_def options_def mount_def)
  from 1 2 3 4 5 6 show ?thesis by blast
qed

theorem unknown_root_keeps_path_witness:
  "\<not> includes_str ''/blog/post-1'' ''/examples'' \<and> \<not> includes_str ''/blog/post-1'' ''/docs''
   \<and> handleVersionChange (mount ''/blog/post-1'') ''v1''
        = (mount ''/blog/post-1'', Some ''/blog/post-1'')
   \<and> handleVersionChange_preview options (mount ''/blog/post-1'') ''v1''
        = (mount ''/blog/post-1'', None)"
proof -
  have h: "\<not> includes_str ''/blog/post-1'' ''/examples''" "\<not> includes_str ''/blog/post-1'' ''/docs''"
    by simp_all
  from unknown_root_keeps_path[OF h, of "''v1''" "mount ''/blog/post-1''"] h
  show ?thesis by (simp add: mount_def detectVersion_def)
qed

text \<open>
  As first stated, the claim had the target path empty and no navigation requested.
  From \<^verbatim>\<open>/blog/post-1\<close>, selecting \<^verbatim>\<open>v1\<close> requests a navigation to \<^verbatim>\<open>/blog/post-1\<close>.
\<close>

theorem unknown_root_counterexample:
  "\<not> includes_str ''/blog/post-1'' ''/examples'' \<and> \<not> includes_str ''/blog/post-1'' ''/docs''
   \<and> ''v1'' \<noteq> currentVersion (mount ''/blog/post-1'')
   \<and> snd (handleVersionChange (mount ''/blog/post-1'') ''v1'') = Some ''/blog/post-1''
   \<and> newPath ''v1'' ''/blog/post-1'' \<noteq> []"
  by (simp add: path_eval)

text \<open>
  Claim C2 (as amended).  For a path that matches a known root, with \<open>r\<close> the text after
  the leftmost occurrence of that root: switching to \<^verbatim>\<open>v1\<close> and back to \<^verbatim>\<open>v0\<close> gives the
  path again exactly when \<open>r\<close> starts neither with a digit nor with a version marker.
  In that case the switch to \<^verbatim>\<open>v1\<close> puts \<^verbatim>\<open>-v1\<close> behind the root and keeps all that
  follows, and from a page at \<^verbatim>\<open>v0\<close> the two selections navigate there and back.
  A path whose root carries a marker comes back with the marker stripped.
\<close>

theorem roundtrip_v1_v0:
  "afterRoot p = Some r \<Longrightarrow>
     (newPath ''v0'' (newPath ''v1'' p) = p \<longleftrightarrow> plainAfterRoot p)
   \<and> (plainAfterRoot p \<longrightarrow>
        (\<exists>a rt. p = a @ rt @ r \<and> newPath ''v1'' p = a @ rt @ ''-v1'' @ r))
   \<and> (plainAfterRoot p \<and> detectVersion p = ''v0'' \<longrightarrow>
        handleVersionChange (mount p) ''v1'' = (mount p, Some (newPath ''v1'' p))
      \<and> handleVersionChange (mount (newPath ''v1'' p)) ''v0'' = (mount (newPath ''v1'' p), Some p))
   \<and> (\<forall>r'. match_version r = Some r' \<longrightarrow>
        (\<exists>a rt. p = a @ rt @ r \<and> newPath ''v0'' (newPath ''v1'' p) = a @ rt @ r'))"
proof -
  assume ar: "afterRoot p = Some r"
  then obtain rt a where m: "matchedRoot p = Some rt"
    and l: "leftmost (strip_prefix rt) p = Some (a, r)"
    unfolding afterRoot_Some by blast
  have pl: "plainAfterRoot p \<longleftrightarrow> \<not> leadingDigit r \<and> match_version r = None"
    using ar by (simp add: plainAfterRoot_def)
  have 1: "newPath ''v0'' (newPath ''v1'' p) = p \<longleftrightarrow> plainAfterRoot p"
    unfolding pl by (rule roundtrip_iff[OF m l])
  have sh: "newPath ''v1'' p = a @ rt @ ''-v1'' @ r" if "plainAfterRoot p"
    using v1_shape(1)[OF m l] that pl by simp
  have 2: "plainAfterRoot p \<longrightarrow> (\<exists>a rt. p = a @ rt @ r \<and> newPath ''v1'' p = a @ rt @ ''-v1'' @ r)"
    using sh leftmost_root_decomp[OF l] by blast
  have 3: "handleVersionChange (mount p) ''v1'' = (mount p, Some (newPath ''v1'' p))
      \<and> handleVersionChange (mount (newPath ''v1'' p)) ''v0'' = (mount (newPath ''v1'' p), Some p)"
    if pp: "plainAfterRoot p" and d: "detectVersion p = ''v0''"
  proof -
    have "sublist (rt @ ''-v1'') (a @ (rt @ ''-v1'') @ r)" by (rule sublist_appendI)
    then have "includes_str (newPath ''v1'' p) (rt @ ''-v1'')"
      unfolding includes_sublist sh[OF pp] by simp
    moreover from m have "rt = ''/examples'' \<or> rt = ''/docs''"
      unfolding matchedRoot_cases by blast
    ultimately have d1: "detectVersion (newPath ''v1'' p) = ''v1''"
      by (auto simp: detectVersion_def)
    from 1 pp have bk: "newPath ''v0'' (newPath ''v1'' p) = p" by simp
    show ?thesis
      using d d1 bk by (simp add: handleVersionChange_def mount_def)
  qed
  have 4: "\<forall>r'. match_version r = Some r' \<longrightarrow>
        (\<exists>a rt. p = a @ rt @ r \<and> newPath ''v0'' (newPath ''v1'' p) = a @ rt @ r')"
  proof (intro allI impI)
    fix r' assume mv: "match_version r = Some r'"
    have "newPath ''v0'' (newPath ''v1'' p) = a @ rt @ dropWhile isDigit r'"
      using v1_then_v0[OF m l] mv by simp
    with dropWhile_plain[OF match_version_plain[OF mv]] leftmost_root_decomp[OF l]
    show "\<exists>a rt. p = a @ rt @ r \<and> newPath ''v0'' (newPath ''v1'' p) = a @ rt @ r'"
      by auto
  qed
  from 1 2 3 4 show ?thesis by blast
qed

theorem roundtrip_v1_v0_witness:
  "afterRoot ''/docs/foo'' = Some ''/foo'' \<and> plainAfterRoot ''/docs/foo''
   \<and> detectVersion ''/docs/foo'' = ''v0''
   \<and> handleVersionChange (mount ''/docs/foo'') ''v1'' = (mount ''/docs/foo'', Some ''/docs-v1/foo'')
   \<and> handleVersionChange (mount ''/docs-v1/foo'') ''v0'' = (mount ''/docs-v1/foo'', Some ''/docs/foo'')"
proof -
  have h: "afterRoot ''/docs/foo'' = Some ''/foo''"
    by (simp add: root_eval)
  have pl: "plainAfterRoot ''/docs/foo''"
    by (simp add: root_eval match_version_def)
  have d: "detectVersion ''/docs/foo'' = ''v0''"
    by (simp add: detectVersion_def)
  have n: "newPath ''v1'' ''/docs/foo'' = ''/docs-v1/foo''"
    by (simp add: path_eval)
  from roundtrip_v1_v0[OF h] pl d h show ?thesis
    unfolding n by simp
qed

text \<open>
  As first stated, the claim held for every path at \<^verbatim>\<open>v0\<close> that matches a root.  The
  path \<^verbatim>\<open>/docs-v0/foo\<close> is at \<^verbatim>\<open>v0\<close>; it goes to \<^verbatim>\<open>/docs-v1/foo\<close> and comes back as
  \<^verbatim>\<open>/docs/foo\<close>.
\<close>

theorem roundtrip_counterexample:
  "includes_str ''/docs-v0/foo'' ''/docs'' \<and> detectVersion ''/docs-v0/foo'' = ''v0''
   \<and> snd (handleVersionChange (mount ''/docs-v0/foo'') ''v1'') = Some ''/docs-v1/foo''
   \<and> snd (handleVersionChange (mount ''/docs-v1/foo'') ''v0'') = Some ''/docs/foo''
   \<and> newPath ''v0'' (newPath ''v1'' ''/docs-v0/foo'') \<noteq> ''/docs-v0/foo''"
  by (simp add: path_eval)

text \<open>
  Claim C3 (as amended).  Computing the target path a second time for \<^verbatim>\<open>v1\<close> changes
  nothing exactly when the matched root of the path is not directly followed by a digit;
  a second time for \<^verbatim>\<open>v0\<close> exactly when no versioned root is left once the leftmost one
  has been stripped; and for any other value the path is returned as it is.  The base
  path of the variant with the disabled preview is the same when computed twice.
\<close>

theorem newPath_idempotent_iff:
  "(newPath ''v1'' (newPath ''v1'' p) = newPath ''v1'' p \<longleftrightarrow> settledV1 p)
   \<and> (newPath ''v0'' (newPath ''v0'' p) = newPath ''v0'' p \<longleftrightarrow> settledV0 p)
   \<and> (v \<noteq> ''v0'' \<and> v \<noteq> ''v1'' \<longrightarrow> newPath v (newPath v p) = newPath v p)
   \<and> basePath (Some v) (basePath (Some v) p) = basePath (Some v) p"
  using v1_idempotent_iff[of p] v0_idempotent_iff[of p] newPath_other[of v]
  by (simp add: basePath_def)

theorem newPath_idempotent_iff_witness:
  "settledV1 ''/docs-v0/foo'' \<and> settledV0 ''/docs-v1/foo''
   \<and> newPath ''v1'' (newPath ''v1'' ''/docs-v0/foo'') = newPath ''v1'' ''/docs-v0/foo''
   \<and> newPath ''v0'' (newPath ''v0'' ''/docs-v1/foo'') = newPath ''v0'' ''/docs-v1/foo''
   \<and> \<not> settledV1 ''/examples2/x''
   \<and> newPath ''v1'' (newPath ''v1'' ''/examples2/x'') \<noteq> newPath ''v1'' ''/examples2/x''"
proof -
  have s: "settledV1 ''/docs-v0/foo''" "settledV0 ''/docs-v1/foo''" "\<not> settledV1 ''/examples2/x''"
    by (simp_all add: root_eval match_versioned_def match_version_def isDigit_def)
  from newPath_idempotent_iff[of "''/docs-v0/foo''" "''v2''"]
       newPath_idempotent_iff[of "''/docs-v1/foo''" "''v2''"]
       newPath_idempotent_iff[of "''/examples2/x''" "''v2''"] s
  show ?thesis by simp
qed

text \<open>
  As first stated, the claim held for every path.  \<^verbatim>\<open>/examples2/x\<close> becomes
  \<^verbatim>\<open>/examples-v12/x\<close> and then \<^verbatim>\<open>/examples-v1/x\<close>; \<^verbatim>\<open>/docs-v1-v2/x\<close> becomes
  \<^verbatim>\<open>/docs-v2/x\<close> and then \<^verbatim>\<open>/docs/x\<close>.
\<close>

theorem idempotent_counterexample:
  "newPath ''v1'' (newPath ''v1'' ''/examples2/x'') \<noteq> newPath ''v1'' ''/examples2/x''
   \<and> newPath ''v0'' (newPath ''v0'' ''/docs-v1-v2/x'') \<noteq> newPath ''v0'' ''/docs-v1-v2/x''"
  by (simp add: path_eval)

subsection \<open>The tag filter\<close>

lemma array_includes_set: "array_includes ts x = (x \<in> set ts)"
  by (induction ts) auto

lemma matchesTag_iff:
  "matchesTag t e = (\<exists>ts. itemTags e = Some (TagArray ts) \<and> t \<in> set ts)"
  by (auto simp: matchesTag_def array_includes_set split: option.splits tagsValue.splits)

text \<open>
  Claim C4.  For a non-empty tag \<open>t\<close> the visible subset consists of exactly the entries
  whose \<^verbatim>\<open>tags\<close> is an array that contains \<open>t\<close> (equality of strings, no normalisation),
  in the order of the input; it is a subsequence of the input; and an entry without
  \<^verbatim>\<open>tags\<close>, or with an empty array, is not in it.
\<close>

theorem filteredItems_by_tag:
  "t \<noteq> [] \<Longrightarrow>
     filteredItems E (Some t)
       = filter (\<lambda>e. \<exists>ts. itemTags e = Some (TagArray ts) \<and> t \<in> set ts) E
   \<and> subseq (filteredItems E (Some t)) E
   \<and> (\<forall>e \<in> set E. itemTags e = None \<or> itemTags e = Some (TagArray [])
          \<longrightarrow> e \<notin> set (filteredItems E (Some t)))"
proof -
  assume t: "t \<noteq> []"
  have eq: "filteredItems E (Some t) = filter (matchesTag t) E"
    using t by (simp add: filteredItems_def)
  have m: "matchesTag t = (\<lambda>e. \<exists>ts. itemTags e = Some (TagArray ts) \<and> t \<in> set ts)"
    by (rule ext) (rule matchesTag_iff)
  have 1: "filteredItems E (Some t)
             = filter (\<lambda>e. \<exists>ts. itemTags e = Some (TagArray ts) \<and> t \<in> set ts) E"
    using eq m by simp
  have 2: "subseq (filteredItems E (Some t)) E"
    unfolding eq by (rule subseq_filter_left)
  have 3: "\<forall>e \<in> set E. itemTags e = None \<or> itemTags e = Some (TagArray [])
          \<longrightarrow> e \<notin> set (filteredItems E (Some t))"
    unfolding 1 by auto
  from 1 2 3 show ?thesis by blast
qed

text \<open>The scenario of the claim: filtering the four entries by \<^verbatim>\<open>x\<close> leaves the first.\<close>

theorem filteredItems_by_tag_witness:
  "''x'' \<noteq> [] \<and> filteredItems scenario_entries (Some ''x'') = [scenario_entries ! 0]
   \<and> subseq [scenario_entries ! 0] scenario_entries"
proof -
  have t: "''x'' \<noteq> []" by simp
  have f: "filter (\<lambda>e. \<exists>ts. itemTags e = Some (TagArray ts) \<and> ''x'' \<in> set ts) scenario_entries
             = [scenario_entries ! 0]"
    by (simp add: scenario_entries_def itemTags_def)
  note k = filteredItems_by_tag[OF t, of scenario_entries]
  from k[THEN conjunct1] f
  have 1: "filteredItems scenario_entries (Some ''x'') = [scenario_entries ! 0]" by simp
  from k[THEN conjunct2, THEN conjunct1]
  have 2: "subseq [scenario_entries ! 0] scenario_entries" unfolding 1 .
  from t 1 2 show ?thesis by blast
qed

text \<open>
  Claim C5.  With no selection (\<^verbatim>\<open>null\<close>, or the empty string that the "all" card sends
  and that \<open>handleValueChange\<close> turns into \<^verbatim>\<open>null\<close>) the visible subset is the whole
  input list, whatever the tags of its entries.
\<close>

theorem filteredItems_no_selection:
  "filteredItems E None = E \<and> filteredItems E (Some []) = E
   \<and> filteredItems E (handleValueChange []) = E
   \<and> radioValue (handleValueChange []) = []"
  by (simp add: filteredItems_def handleValueChange_def radioValue_def)

theorem filteredItems_no_selection_witness:
  "filteredItems scenario_entries (handleValueChange '''') = scenario_entries
   \<and> length (filteredItems scenario_entries None) = 4"
  using filteredItems_no_selection[of scenario_entries]
  by (simp add: scenario_entries_def)

text \<open>
  Claim C8.  Over a store of arrays: computing the visible subset leaves the array it
  is given, and every other array of the store, as it was; the result holds the visible
  subset; and with no selection the reference that was given is returned and the store
  is not touched at all.
\<close>

theorem filteredItems_store_frame:
  "wf_store h \<Longrightarrow> cells h a = Some E \<Longrightarrow>
     (case filteredItems_store h a sel of (h', r) \<Rightarrow>
        cells h' a = Some E
      \<and> (\<forall>b. cells h b \<noteq> None \<longrightarrow> cells h' b = cells h b)
      \<and> cells h' r = Some (filteredItems E sel)
      \<and> (sel = None \<or> sel = Some [] \<longrightarrow> r = a \<and> h' = h))"
  by (auto simp: filteredItems_store_def filteredItems_def alloc_def wf_store_def
           split: option.splits)

theorem filteredItems_store_frame_witness:
  "wf_store scenario_store \<and> cells scenario_store 0 = Some scenario_entries
   \<and> cells (fst (filteredItems_store scenario_store 0 (Some ''x''))) 0 = Some scenario_entries
   \<and> snd (filteredItems_store scenario_store 0 (Some ''x'')) \<noteq> 0
   \<and> filteredItems_store scenario_store 0 None = (scenario_store, 0)"
proof -
  have w: "wf_store scenario_store" and c: "cells scenario_store 0 = Some scenario_entries"
    by (simp_all add: wf_store_def scenario_store_def)
  have r: "snd (filteredItems_store scenario_store 0 (Some ''x'')) \<noteq> 0"
    by (simp add: filteredItems_store_def alloc_def scenario_store_def)
  from filteredItems_store_frame[OF w c, of "Some ''x''"]
       filteredItems_store_frame[OF w c, of None] w c r
  show ?thesis by (auto split: prod.splits)
qed

subsection \<open>Keyboard navigation and disabled options\<close>

lemma find_distinct_value:
  "distinct (map opt_value opts) \<Longrightarrow> opt \<in> set opts \<Longrightarrow>
     find (\<lambda>x. opt_value x = opt_value opt) opts = Some opt"
  by (induction opts) (auto simp: image_iff)

lemma at_index_mem: "at_index xs i = Some x \<Longrightarrow> x \<in> set xs"
  by (auto simp: at_index_def split: option.splits if_splits)

lemma newValue_preview_enabled:
  "newValue_preview opts cur key = Some v \<Longrightarrow> v \<in> set (enabledValues opts)"
  unfolding newValue_preview_def by (rule at_index_mem)

lemma indexOf_range: "-1 \<le> indexOf xs x \<and> indexOf xs x < int (length xs)"
  by (induction xs) (auto simp: Let_def)

lemma indexOf_absent: "x \<notin> set xs \<Longrightarrow> indexOf xs x = -1"
  by (induction xs) (auto simp: Let_def)

lemma indexOf_nth: "distinct xs \<Longrightarrow> i < length xs \<Longrightarrow> indexOf xs (xs ! i) = int i"
proof (induction xs arbitrary: i)
  case Nil
  then show ?case by simp
next
  case (Cons y ys)
  show ?case
  proof (cases i)
    case 0
    then show ?thesis by simp
  next
    case (Suc j)
    with Cons.prems have j: "j < length ys" "distinct ys" "ys ! j \<noteq> y"
      by auto
    from Cons.IH[OF j(2) j(1)] j(3) Suc show ?thesis
      by (simp add: Let_def)
  qed
qed

lemma js_rem_nonneg: "0 \<le> a \<Longrightarrow> 0 < n \<Longrightarrow> js_rem a n = Some (a mod n)"
  by (simp add: js_rem_def sgn_if)

lemma at_index_nth: "i < length xs \<Longrightarrow> at_index xs (Some (int i)) = Some (xs ! i)"
  by (simp add: at_index_def)

lemma distinct_enabledValues:
  "distinct (map opt_value opts) \<Longrightarrow> distinct (enabledValues opts)"
  unfolding enabledValues_def by (rule distinct_map_filter)

lemma js_rem_int: "0 < n \<Longrightarrow> js_rem (int a) (int n) = Some (int (a mod n))"
  by (simp add: js_rem_def sgn_if zmod_int)

lemma arrow_cyclic:
  assumes d: "distinct ev" and i: "i < length ev"
  shows "at_index ev (nextIndex ''ArrowDown'' (indexOf ev (ev ! i)) (int (length ev)))
           = Some (ev ! ((i + 1) mod length ev))"
    and "at_index ev (nextIndex ''ArrowUp'' (indexOf ev (ev ! i)) (int (length ev)))
           = Some (ev ! ((i + length ev - 1) mod length ev))"
proof -
  have n: "0 < length ev" using i by (cases ev) simp_all
  have idx: "indexOf ev (ev ! i) = int i" by (rule indexOf_nth[OF d i])
  have e2: "int i - 1 + int (length ev) = int (i + length ev - 1)" using n by linarith
  have nd: "nextIndex ''ArrowDown'' (int i) (int (length ev))
              = js_rem (int (i + 1)) (int (length ev))"
    by (simp add: nextIndex_def ac_simps)
  have nu: "nextIndex ''ArrowUp'' (int i) (int (length ev))
              = js_rem (int (i + length ev - 1)) (int (length ev))"
    unfolding e2[symmetric] by (simp add: nextIndex_def)
  show "at_index ev (nextIndex ''ArrowDown'' (indexOf ev (ev ! i)) (int (length ev)))
           = Some (ev ! ((i + 1) mod length ev))"
    unfolding idx nd js_rem_int[OF n] by (rule at_index_nth) (use n in simp)
  show "at_index ev (nextIndex ''ArrowUp'' (indexOf ev (ev ! i)) (int (length ev)))
           = Some (ev ! ((i + length ev - 1) mod length ev))"
    unfolding idx nu js_rem_int[OF n] by (rule at_index_nth) (use n in simp)
qed

lemma enabled_find:
  "distinct (map opt_value opts) \<Longrightarrow> v \<in> set (enabledValues opts) \<Longrightarrow>
     \<exists>opt. find (\<lambda>x. opt_value x = v) opts = Some opt \<and> \<not> opt_disabled opt"
  using find_distinct_value by (fastforce simp: enabledValues_def)

lemma keyboard_same_transition_preview:
  assumes d: "distinct (map opt_value opts)" and o: "isOpen st"
    and k: "key = ''ArrowDown'' \<or> key = ''ArrowUp''"
    and v: "newValue_preview opts (currentVersion st) key = Some v"
  shows "handleKeyDown_preview opts st key =
           (fst (handleVersionChange_preview opts st v),
            no_effects\<lparr>defaultPrevented := True,
              navigated := snd (handleVersionChange_preview opts st v)\<rparr>)"
proof -
  from enabled_find[OF d newValue_preview_enabled[OF v]]
  obtain opt where f: "find (\<lambda>x. opt_value x = v) opts = Some opt" "\<not> opt_disabled opt"
    by blast
  have hv: "handleVersionChange_preview opts st v =
       (st\<lparr>isOpen := False\<rparr>,
        if v = currentVersion st then None else Some (basePath (Some v) (pathname st)))"
    using f by (simp add: handleVersionChange_preview_def)
  have esc: "key \<noteq> ''Escape''" using k by auto
  show ?thesis
    unfolding hv using o k v esc
    by (auto simp: handleKeyDown_preview_def Let_def no_effects_def)
qed

lemma options2_next:
  "key = ''ArrowDown'' \<or> key = ''ArrowUp'' \<Longrightarrow>
   at_index [''v0'', ''v1''] (nextIndex key (indexOf [''v0'', ''v1''] cur) 2)
     = Some (if cur = ''v0'' then ''v1'' else ''v0'')"
  by (auto simp: nextIndex_def js_rem_def at_index_def Let_def)

lemma keyboard_same_transition:
  assumes o: "isOpen st" and k: "key = ''ArrowDown'' \<or> key = ''ArrowUp''"
  shows "handleKeyDown st key =
           (fst (handleVersionChange st (if currentVersion st = ''v0'' then ''v1'' else ''v0'')),
            no_effects\<lparr>defaultPrevented := True,
              navigated := snd (handleVersionChange st (if currentVersion st = ''v0'' then ''v1'' else ''v0''))\<rparr>)"
proof -
  have esc: "key \<noteq> ''Escape''" using k by auto
  show ?thesis
    using o k esc options2_next[OF k, of "currentVersion st"]
    by (auto simp: handleKeyDown_def handleVersionChange_def Let_def no_effects_def)
qed

lemma disabled_not_enabled:
  "distinct (map opt_value opts) \<Longrightarrow> opt \<in> set opts \<Longrightarrow> opt_disabled opt \<Longrightarrow>
     opt_value opt \<notin> set (enabledValues opts)"
  by (induction opts) (auto simp: enabledValues_def image_iff)

lemma nextIndex_cyclic:
  assumes n: "0 < n" and k: "- 1 \<le> k" "k < n"
  shows "nextIndex ''ArrowDown'' k n = Some ((k + 1) mod n)"
    and "nextIndex ''ArrowUp'' k n = Some ((k - 1) mod n)"
proof -
  have "js_rem (k + 1) n = Some ((k + 1) mod n)"
    using js_rem_nonneg[of "k + 1" n] n k by simp
  then show "nextIndex ''ArrowDown'' k n = Some ((k + 1) mod n)"
    by (simp add: nextIndex_def)
  have "js_rem (k - 1 + n) n = Some ((k - 1) mod n)"
  proof (cases "0 \<le> k - 1 + n")
    case True
    have "(k - 1 + n) mod n = (k - 1) mod n" by simp
    with js_rem_nonneg[OF True n] show ?thesis by simp
  next
    case False
    with n k have e: "k = - 1" "n = 1" by linarith+
    show ?thesis unfolding e by (simp add: js_rem_def)
  qed
  then show "nextIndex ''ArrowUp'' k n = Some ((k - 1) mod n)"
    by (simp add: nextIndex_def)
qed

lemma at_index_int:
  "0 \<le> j \<Longrightarrow> j < int (length xs) \<Longrightarrow> at_index xs (Some j) = Some (xs ! nat j)"
  by (simp add: at_index_def)

text \<open>
  The option the arrow keys move to, for any current version: with \<open>k\<close> the position of
  the current version among the enabled values (\<open>-1\<close> when it is not one of them), it
  is the enabled value at \<open>k + 1\<close>, or at \<open>k - 1\<close>, modulo their number.
\<close>

lemma newValue_preview_position:
  assumes ne: "enabledValues opts \<noteq> []"
  shows "newValue_preview opts cur ''ArrowDown''
           = Some (enabledValues opts !
               nat ((indexOf (enabledValues opts) cur + 1) mod int (length (enabledValues opts))))"
    and "newValue_preview opts cur ''ArrowUp''
           = Some (enabledValues opts !
               nat ((indexOf (enabledValues opts) cur - 1) mod int (length (enabledValues opts))))"
proof -
  let ?ev = "enabledValues opts"
  let ?k = "indexOf ?ev cur"
  let ?n = "int (length ?ev)"
  have n: "0 < ?n" using ne by simp
  have k: "- 1 \<le> ?k" "?k < ?n" using indexOf_range[of ?ev cur] by simp_all
  have d: "0 \<le> (?k + 1) mod ?n" "(?k + 1) mod ?n < ?n"
    and u: "0 \<le> (?k - 1) mod ?n" "(?k - 1) mod ?n < ?n"
    using n by simp_all
  show "newValue_preview opts cur ''ArrowDown'' = Some (?ev ! nat ((?k + 1) mod ?n))"
    unfolding newValue_preview_def nextIndex_cyclic(1)[OF n k]
    by (rule at_index_int[OF d])
  show "newValue_preview opts cur ''ArrowUp'' = Some (?ev ! nat ((?k - 1) mod ?n))"
    unfolding newValue_preview_def nextIndex_cyclic(2)[OF n k]
    by (rule at_index_int[OF u])
qed

lemma newValue_preview_defined:
  assumes ne: "enabledValues opts \<noteq> []" and key: "key = ''ArrowDown'' \<or> key = ''ArrowUp''"
  shows "\<exists>v. newValue_preview opts cur key = Some v"
  using newValue_preview_position[OF ne, of cur] key by blast

lemma newValue_preview_source: "newValue_preview options cur key = Some ''v0''"
proof -
  have ev: "enabledValues options = [''v0'']"
    by (simp add: options_def enabledValues_def)
  show ?thesis
    by (simp add: newValue_preview_def ev nextIndex_def js_rem_def at_index_def)
qed

text \<open>
  Claim C6.  While the menu is open, for an option list whose values are distinct and
  of which at least one is enabled (as in the source), and for every current version,
  enabled or not: the arrow keys always move to an option; with \<open>k\<close> the position of the
  current version among the enabled options (\<open>-1\<close> when it is not one of them)
  \<^verbatim>\<open>ArrowDown\<close> moves to the enabled option at \<open>k + 1\<close> and \<^verbatim>\<open>ArrowUp\<close> to the one at
  \<open>k - 1\<close>, both modulo the number of enabled options, so that from the enabled option
  at \<open>i\<close> they move to its successor and its predecessor in the cycle; the option moved
  to is an enabled one and never the value of a disabled one; the handler closes the menu
  and requests exactly the navigation that \<open>handleVersionChange\<close> requests for that
  option (none when it is the current one, the base path otherwise); and \<^verbatim>\<open>Escape\<close>
  closes the menu and focuses the trigger without navigating.  With the source's own
  list both arrows move to \<^verbatim>\<open>v0\<close> from every current version.  The last lines say the
  same of the variant whose two options are both enabled.
\<close>

theorem keyboard_navigation:
  "distinct (map opt_value opts) \<Longrightarrow> enabledValues opts \<noteq> [] \<Longrightarrow> isOpen st \<Longrightarrow>
     newValue_preview opts (currentVersion st) ''ArrowDown''
       = Some (enabledValues opts !
           nat ((indexOf (enabledValues opts) (currentVersion st) + 1)
                  mod int (length (enabledValues opts))))
   \<and> newValue_preview opts (currentVersion st) ''ArrowUp''
       = Some (enabledValues opts !
           nat ((indexOf (enabledValues opts) (currentVersion st) - 1)
                  mod int (length (enabledValues opts))))
   \<and> (currentVersion st \<notin> set (enabledValues opts) \<longrightarrow>
        indexOf (enabledValues opts) (currentVersion st) = - 1)
   \<and> (\<forall>i < length (enabledValues opts). currentVersion st = enabledValues opts ! i \<longrightarrow>
        indexOf (enabledValues opts) (currentVersion st) = int i
      \<and> newValue_preview opts (currentVersion st) ''ArrowDown''
          = Some (enabledValues opts ! ((i + 1) mod length (enabledValues opts)))
      \<and> newValue_preview opts (currentVersion st) ''ArrowUp''
          = Some (enabledValues opts !
                    ((i + length (enabledValues opts) - 1) mod length (enabledValues opts))))
   \<and> (\<forall>key. key = ''ArrowDown'' \<or> key = ''ArrowUp'' \<longrightarrow>
        (\<exists>v. newValue_preview opts (currentVersion st) key = Some v
           \<and> v \<in> set (enabledValues opts)
           \<and> (\<forall>opt \<in> set opts. opt_disabled opt \<longrightarrow> opt_value opt \<noteq> v)
           \<and> handleVersionChange_preview opts st v =
               (st\<lparr>isOpen := False\<rparr>,
                if v = currentVersion st then None
                else Some (basePath (Some v) (pathname st)))
           \<and> handleKeyDown_preview opts st key =
               (st\<lparr>isOpen := False\<rparr>,
                no_effects\<lparr>defaultPrevented := True,
                  navigated := (if v = currentVersion st then None
                                else Some (basePath (Some v) (pathname st)))\<rparr>)))
   \<and> handleKeyDown_preview opts st ''Escape''
        = (st\<lparr>isOpen := False\<rparr>, no_effects\<lparr>focusedTrigger := True\<rparr>)
   \<and> (\<forall>key. key = ''ArrowDown'' \<or> key = ''ArrowUp'' \<longrightarrow>
        newValue_preview options (currentVersion st) key = Some ''v0''
      \<and> handleKeyDown_preview options st key =
          (st\<lparr>isOpen := False\<rparr>,
           no_effects\<lparr>defaultPrevented := True,
             navigated := (if currentVersion st = ''v0'' then None
                           else Some (basePath (Some ''v0'') (pathname st)))\<rparr>))
   \<and> handleKeyDown st ''Escape''
        = (st\<lparr>isOpen := False\<rparr>, no_effects\<lparr>focusedTrigger := True\<rparr>)
   \<and> (\<forall>key. key = ''ArrowDown'' \<or> key = ''ArrowUp'' \<longrightarrow>
        handleKeyDown st key =
          (fst (handleVersionChange st (if currentVersion st = ''v0'' then ''v1'' else ''v0'')),
           no_effects\<lparr>defaultPrevented := True,
             navigated := snd (handleVersionChange st
                                 (if currentVersion st = ''v0'' then ''v1'' else ''v0''))\<rparr>))"
proof -
  assume d: "distinct (map opt_value opts)" and ne: "enabledValues opts \<noteq> []"
    and o: "isOpen st"
  let ?ev = "enabledValues opts"
  let ?cur = "currentVersion st"
  have dev: "distinct ?ev" by (rule distinct_enabledValues[OF d])
  note 1 = newValue_preview_position(1)[OF ne, of ?cur]
  note 2 = newValue_preview_position(2)[OF ne, of ?cur]
  have 3: "?cur \<notin> set ?ev \<longrightarrow> indexOf ?ev ?cur = - 1"
    using indexOf_absent[of ?cur ?ev] by simp
  have 4: "\<forall>i < length ?ev. ?cur = ?ev ! i \<longrightarrow>
        indexOf ?ev ?cur = int i
      \<and> newValue_preview opts ?cur ''ArrowDown'' = Some (?ev ! ((i + 1) mod length ?ev))
      \<and> newValue_preview opts ?cur ''ArrowUp''
          = Some (?ev ! ((i + length ?ev - 1) mod length ?ev))"
    using arrow_cyclic[OF dev] indexOf_nth[OF dev] by (simp add: newValue_preview_def)
  have 5: "\<exists>v. newValue_preview opts ?cur key = Some v
           \<and> v \<in> set ?ev
           \<and> (\<forall>opt \<in> set opts. opt_disabled opt \<longrightarrow> opt_value opt \<noteq> v)
           \<and> handleVersionChange_preview opts st v =
               (st\<lparr>isOpen := False\<rparr>,
                if v = ?cur then None else Some (basePath (Some v) (pathname st)))
           \<and> handleKeyDown_preview opts st key =
               (st\<lparr>isOpen := False\<rparr>,
                no_effects\<lparr>defaultPrevented := True,
                  navigated := (if v = ?cur then None
                                else Some (basePath (Some v) (pathname st)))\<rparr>)"
    if key: "key = ''ArrowDown'' \<or> key = ''ArrowUp''" for key
  proof -
    from newValue_preview_defined[OF ne key, of ?cur]
    obtain v where v: "newValue_preview opts ?cur key = Some v" by blast
    have mem: "v \<in> set ?ev" by (rule newValue_preview_enabled[OF v])
    have nd: "\<forall>opt \<in> set opts. opt_disabled opt \<longrightarrow> opt_value opt \<noteq> v"
      using disabled_not_enabled[OF d] mem by blast
    from enabled_find[OF d mem]
    obtain opt where f: "find (\<lambda>x. opt_value x = v) opts = Some opt" "\<not> opt_disabled opt"
      by blast
    have hv: "handleVersionChange_preview opts st v =
       (st\<lparr>isOpen := False\<rparr>,
        if v = ?cur then None else Some (basePath (Some v) (pathname st)))"
      using f by (simp add: handleVersionChange_preview_def)
    have hk: "handleKeyDown_preview opts st key =
               (st\<lparr>isOpen := False\<rparr>,
                no_effects\<lparr>defaultPrevented := True,
                  navigated := (if v = ?cur then None
                                else Some (basePath (Some v) (pathname st)))\<rparr>)"
      using keyboard_same_transition_preview[OF d o key v] unfolding hv by simp
    from v mem nd hv hk show ?thesis by blast
  qed
  have 6: "handleKeyDown_preview opts st ''Escape''
        = (st\<lparr>isOpen := False\<rparr>, no_effects\<lparr>focusedTrigger := True\<rparr>)"
    using o by (simp add: handleKeyDown_preview_def)
  have 7: "newValue_preview options ?cur key = Some ''v0''
      \<and> handleKeyDown_preview options st key =
          (st\<lparr>isOpen := False\<rparr>,
           no_effects\<lparr>defaultPrevented := True,
             navigated := (if ?cur = ''v0'' then None
                           else Some (basePath (Some ''v0'') (pathname st)))\<rparr>)"
    if key: "key = ''ArrowDown'' \<or> key = ''ArrowUp''" for key
  proof -
    have esc: "key \<noteq> ''Escape''" using key by auto
    show ?thesis
      using o key esc newValue_preview_source[of ?cur key]
      by (auto simp: handleKeyDown_preview_def Let_def no_effects_def)
  qed
  have 8: "handleKeyDown st ''Escape''
        = (st\<lparr>isOpen := False\<rparr>, no_effects\<lparr>focusedTrigger := True\<rparr>)"
    using o by (simp add: handleKeyDown_def)
  have 9: "\<forall>key. key = ''ArrowDown'' \<or> key = ''ArrowUp'' \<longrightarrow>
        handleKeyDown st key =
          (fst (handleVersionChange st (if ?cur = ''v0'' then ''v1'' else ''v0'')),
           no_effects\<lparr>defaultPrevented := True,
             navigated := snd (handleVersionChange st
                                 (if ?cur = ''v0'' then ''v1'' else ''v0''))\<rparr>)"
    using keyboard_same_transition[OF o] by blast
  from 1 2 3 4 5 6 7 8 9 show ?thesis by blast
qed

text \<open>
  The scenario of the claim, with the options A, B (disabled) and C; and the source's
  own list on a page of the preview version, where the current version is the disabled
  option: the arrow keys move to \<^verbatim>\<open>v0\<close> and request its base path.
\<close>

theorem keyboard_navigation_witness:
  "distinct (map opt_value scenario_options)
   \<and> enabledValues scenario_options = [''A'', ''C'']
   \<and> newValue_preview scenario_options ''A'' ''ArrowDown'' = Some ''C''
   \<and> newValue_preview scenario_options ''C'' ''ArrowDown'' = Some ''A''
   \<and> newValue_preview scenario_options ''A'' ''ArrowUp'' = Some ''C''
   \<and> handleKeyDown_preview scenario_options
        \<lparr>pathname = ''/docs/foo'', currentVersion = ''A'', isOpen = True\<rparr> ''Escape''
      = (\<lparr>pathname = ''/docs/foo'', currentVersion = ''A'', isOpen = False\<rparr>,
         \<lparr>navigated = None, focusedTrigger = True, defaultPrevented = False\<rparr>)
   \<and> distinct (map opt_value options) \<and> enabledValues options = [''v0'']
   \<and> handleKeyDown_preview options
        \<lparr>pathname = ''/docs-v1/foo'', currentVersion = ''v1'', isOpen = True\<rparr> ''ArrowDown''
      = (\<lparr>pathname = ''/docs-v1/foo'', currentVersion = ''v1'', isOpen = False\<rparr>,
         \<lparr>navigated = Some ''/docs'', focusedTrigger = False, defaultPrevented = True\<rparr>)
   \<and> handleKeyDown_preview options
        \<lparr>pathname = ''/docs-v1/foo'', currentVersion = ''v1'', isOpen = True\<rparr> ''ArrowUp''
      = (\<lparr>pathname = ''/docs-v1/foo'', currentVersion = ''v1'', isOpen = False\<rparr>,
         \<lparr>navigated = Some ''/docs'', focusedTrigger = False, defaultPrevented = True\<rparr>)"
proof -
  let ?A = "\<lparr>pathname = ''/docs/foo'', currentVersion = ''A'', isOpen = True\<rparr>"
  let ?C = "\<lparr>pathname = ''/docs/foo'', currentVersion = ''C'', isOpen = True\<rparr>"
  let ?P = "\<lparr>pathname = ''/docs-v1/foo'', currentVersion = ''v1'', isOpen = True\<rparr>"
  have d: "distinct (map opt_value scenario_options)"
    by (simp add: scenario_options_def)
  have ev: "enabledValues scenario_options = [''A'', ''C'']"
    by (simp add: scenario_options_def enabledValues_def)
  have ne: "enabledValues scenario_options \<noteq> []" by (simp add: ev)
  have dS: "distinct (map opt_value options)"
    by (simp add: options_def)
  have evS: "enabledValues options = [''v0'']"
    by (simp add: options_def enabledValues_def)
  have neS: "enabledValues options \<noteq> []" by (simp add: evS)
  have oA: "isOpen ?A" and oC: "isOpen ?C" and oP: "isOpen ?P"
    by simp_all
  have iA: "0 < length (enabledValues scenario_options)"
    "currentVersion ?A = enabledValues scenario_options ! 0"
    and iC: "1 < length (enabledValues scenario_options)"
    "currentVersion ?C = enabledValues scenario_options ! 1"
    by (simp_all add: ev)
  note kA = keyboard_navigation[OF d ne oA]
  note kC = keyboard_navigation[OF d ne oC]
  note kP = keyboard_navigation[OF dS neS oP]
  from kA[THEN conjunct2, THEN conjunct2, THEN conjunct2, THEN conjunct1, rule_format, OF iA]
  have A: "newValue_preview scenario_options ''A'' ''ArrowDown'' = Some ''C''"
    "newValue_preview scenario_options ''A'' ''ArrowUp'' = Some ''C''"
    by (simp_all add: ev)
  from kC[THEN conjunct2, THEN conjunct2, THEN conjunct2, THEN conjunct1, rule_format, OF iC]
  have C: "newValue_preview scenario_options ''C'' ''ArrowDown'' = Some ''A''"
    by (simp add: ev)
  from kA[THEN conjunct2, THEN conjunct2, THEN conjunct2, THEN conjunct2, THEN conjunct2,
          THEN conjunct1]
  have E: "handleKeyDown_preview scenario_options ?A ''Escape''
      = (\<lparr>pathname = ''/docs/foo'', currentVersion = ''A'', isOpen = False\<rparr>,
         \<lparr>navigated = None, focusedTrigger = True, defaultPrevented = False\<rparr>)"
    by (simp add: no_effects_def)
  note S = kP[THEN conjunct2, THEN conjunct2, THEN conjunct2, THEN conjunct2, THEN conjunct2,
          THEN conjunct2, THEN conjunct1, rule_format]
  have b: "basePath (Some ''v0'') ''/docs-v1/foo'' = ''/docs''"
    by (simp add: basePath_def)
  from S[of "''ArrowDown''"] b
  have D1: "handleKeyDown_preview options ?P ''ArrowDown''
      = (\<lparr>pathname = ''/docs-v1/foo'', currentVersion = ''v1'', isOpen = False\<rparr>,
         \<lparr>navigated = Some ''/docs'', focusedTrigger = False, defaultPrevented = True\<rparr>)"
    by (simp add: no_effects_def)
  from S[of "''ArrowUp''"] b
  have D2: "handleKeyDown_preview options ?P ''ArrowUp''
      = (\<lparr>pathname = ''/docs-v1/foo'', currentVersion = ''v1'', isOpen = False\<rparr>,
         \<lparr>navigated = Some ''/docs'', focusedTrigger = False, defaultPrevented = True\<rparr>)"
    by (simp add: no_effects_def)
  from d ev A C E dS evS D1 D2 show ?thesis by blast
qed

text \<open>
  Claim C7.  A disabled option is ignored: clicking it, or calling the version change
  with its value, leaves the whole state (the current version with it) as it was and
  requests no navigation, in every state; and the arrow keys never move to it.  The
  functions are total, so nothing is raised.
\<close>

theorem disabled_option_ignored:
  "opt \<in> set opts \<Longrightarrow> opt_disabled opt \<Longrightarrow>
     onClick_preview opts st opt = (st, None)
   \<and> (distinct (map opt_value opts) \<longrightarrow>
        handleVersionChange_preview opts st (opt_value opt) = (st, None)
      \<and> newValue_preview opts (currentVersion st) key \<noteq> Some (opt_value opt))
   \<and> currentVersion (fst (handleKeyDown_preview opts st key)) = currentVersion st"
proof -
  assume o: "opt \<in> set opts" "opt_disabled opt"
  have 1: "onClick_preview opts st opt = (st, None)"
    using o by (simp add: onClick_preview_def)
  have 2: "handleVersionChange_preview opts st (opt_value opt) = (st, None)
      \<and> newValue_preview opts (currentVersion st) key \<noteq> Some (opt_value opt)"
    if d: "distinct (map opt_value opts)"
    using find_distinct_value[OF d o(1)] o(2) disabled_not_enabled[OF d o]
      newValue_preview_enabled[of opts "currentVersion st" key "opt_value opt"]
    by (auto simp: handleVersionChange_preview_def)
  have 3: "currentVersion (fst (handleKeyDown_preview opts st key)) = currentVersion st"
    by (simp add: handleKeyDown_preview_def Let_def)
  from 1 2 3 show ?thesis by blast
qed

text \<open>The source's own option list: \<^verbatim>\<open>v1-preview\<close> is disabled.\<close>

theorem disabled_option_ignored_witness:
  "options ! 1 \<in> set options \<and> opt_disabled (options ! 1) \<and> distinct (map opt_value options)
   \<and> onClick_preview options (mount ''/docs/foo'') (options ! 1) = (mount ''/docs/foo'', None)
   \<and> handleVersionChange_preview options (mount ''/docs/foo'') ''v1'' = (mount ''/docs/foo'', None)
   \<and> newValue_preview options ''v0'' ''ArrowDown'' \<noteq> Some ''v1''"
proof -
  have h: "options ! 1 \<in> set options" "opt_disabled (options ! 1)"
    and d: "distinct (map opt_value options)" and v: "opt_value (options ! 1) = ''v1''"
    and c: "currentVersion (mount ''/docs/foo'') = ''v0''"
    by (simp_all add: options_def mount_def detectVersion_def)
  from disabled_option_ignored[OF h, of "mount ''/docs/foo''" "''ArrowDown''"] h d
  show ?thesis unfolding v c by blast
qed

subsection \<open>The star count\<close>

text \<open>
  Claim C9.  When the request fails (\<^verbatim>\<open>fetch\<close> rejects, the body is not JSON, or the body
  is not an object) the handler returns normally: the error is appended to the console,
  loading ends and the stored count is what it was.  Started from the initial state, the
  stored count is still \<^verbatim>\<open>null\<close> and the box shows \<^verbatim>\<open>0\<close>.
\<close>

theorem fetchStars_failure:
  "out = FetchRejected e \<or> out = JsonRejected e \<or> out = BodyNotObject e \<Longrightarrow>
     (\<exists>st'. fetchStars st out = Inr st'
         \<and> stars st' = stars st \<and> loading st' = False
         \<and> console st' = console st @ [''Error fetching GitHub stars: '' @ e])
   \<and> (\<forall>st'. fetchStars initialStarState out = Inr st' \<longrightarrow>
         stars st' = Null \<and> displayedCount toLocaleString st' = Some ''0'')"
  by (auto simp: fetchStars_def tryBlock_def initialStarState_def displayedCount_def
                 formatStars_def)

theorem fetchStars_failure_witness:
  "fetchStars initialStarState (JsonRejected ''Unexpected token'')
     = Inr \<lparr>stars = Null, loading = False,
            console = [''Error fetching GitHub stars: Unexpected token'']\<rparr>
   \<and> displayedCount toLocaleString_en
        \<lparr>stars = Null, loading = False,
         console = [''Error fetching GitHub stars: Unexpected token'']\<rparr> = Some ''0''"
proof -
  have h: "JsonRejected ''Unexpected token'' = FetchRejected ''Unexpected token''
         \<or> JsonRejected ''Unexpected token'' = JsonRejected ''Unexpected token''
         \<or> JsonRejected ''Unexpected token'' = BodyNotObject ''Unexpected token''"
    by simp
  have f: "fetchStars initialStarState (JsonRejected ''Unexpected token'')
     = Inr \<lparr>stars = Null, loading = False,
            console = [''Error fetching GitHub stars: Unexpected token'']\<rparr>"
    by (simp add: fetchStars_def tryBlock_def initialStarState_def)
  from fetchStars_failure[OF h, of initialStarState toLocaleString_en] f
  show ?thesis by simp
qed

lemma Math_round_div:
  "0 < d \<Longrightarrow> Math_round (of_int c / of_int (2 * d)) = (c + d) div (2 * d)"
proof -
  assume d: "0 < d"
  have "(of_int c / of_int (2 * d) + 1 / 2 :: rat) = of_int (c + d) / of_int (2 * d)"
    using d by (simp add: field_simps)
  then show ?thesis
    unfolding Math_round_def by (simp only: floor_divide_of_int_eq)
qed

lemma Math_round_100: "Math_round (of_int c / 100) = (c + 50) div 100"
  using Math_round_div[of 50 c] by simp

lemma Math_round_1000: "Math_round (of_int c / 1000) = (c + 500) div 1000"
  using Math_round_div[of 500 c] by simp

lemma toFixed1_tenths:
  "0 \<le> r \<Longrightarrow> toFixed1 (of_int r / 10) = digits (nat r div 10) @ ''.'' @ digits (nat r mod 10)"
proof -
  assume r: "0 \<le> r"
  have "\<lfloor>\<bar>of_int r / 10 :: rat\<bar> * 10 + 1 / 2\<rfloor> = \<lfloor>(of_int r :: rat) + 1 / 2\<rfloor>"
    using r by simp
  also have "\<dots> = r" by linarith
  finally have n: "nat \<lfloor>\<bar>of_int r / 10 :: rat\<bar> * 10 + 1 / 2\<rfloor> = nat r" by simp
  have nn: "\<not> (of_int r / 10 :: rat) < 0" using r by simp
  show ?thesis
    unfolding toFixed1_def Let_def n using nn by simp
qed

lemma digits_single: "n < 10 \<Longrightarrow> digits n = [digit_char n]"
  by (simp add: digits.simps)

lemma group3_small: "n < 1000 \<Longrightarrow> group3 n = digits n"
  by (simp add: group3.simps)

lemma valueOf_from: "inSafeRange n \<Longrightarrow> valueOf (safeInteger_from n) = n"
  by (simp add: safeInteger_from.rep_eq)

lemma plainDigitsHost_en: "plainDigitsHost toLocaleString_en"
  unfolding plainDigitsHost_def
proof (intro allI impI)
  fix c assume c: "0 \<le> valueOf c \<and> valueOf c < 1000"
  then have "nat (valueOf c) < 1000" by linarith
  from group3_small[OF this] c
  show "toLocaleString_en (Num c) = digits (nat (valueOf c))"
    by (simp add: toLocaleString_en_def)
qed

text \<open>
  Claim C10 (as amended).  \<open>formatStars\<close> gives \<^verbatim>\<open>0\<close> for \<^verbatim>\<open>null\<close>, \<^verbatim>\<open>undefined\<close> and
  \<^verbatim>\<open>NaN\<close>.  For \<^verbatim>\<open>-0\<close>, \<^verbatim>\<open>-Infinity\<close> and every safe integer below 1000 it gives what the
  host's \<^verbatim>\<open>toLocaleString\<close> gives for the default locale; for a count from 0 to 999 that
  is the decimal string on a host that writes these numbers in plain digits, as the
  English host does.  For a safe integer from 1000 to 9999 it gives the count divided by
  100 and rounded (a tie going up), written as tenths with one decimal and \<^verbatim>\<open>k\<close>, so
  that 9950 to 9999 give \<^verbatim>\<open>10.0k\<close>.  For a safe integer from 10000 on it gives the
  count divided by 1000 and rounded, in plain digits, and \<^verbatim>\<open>k\<close>; for \<^verbatim>\<open>Infinity\<close> it
  gives \<^verbatim>\<open>Infinityk\<close>.
\<close>

theorem formatStars_cases:
  "formatStars L Null = ''0'' \<and> formatStars L Undefined = ''0''
   \<and> formatStars L (Number NaN) = ''0''
   \<and> formatStars L (Number NegZero) = L NegZero
   \<and> formatStars L (Number NegInfinity) = L NegInfinity
   \<and> formatStars L (Number PosInfinity) = ''Infinityk''
   \<and> (valueOf c < 1000 \<longrightarrow> formatStars L (Number (Num c)) = L (Num c))
   \<and> (0 \<le> valueOf c \<and> valueOf c < 1000 \<and> plainDigitsHost L \<longrightarrow>
        formatStars L (Number (Num c)) = digits (nat (valueOf c)))
   \<and> plainDigitsHost toLocaleString_en
   \<and> (1000 \<le> valueOf c \<and> valueOf c < 10000 \<longrightarrow>
        formatStars L (Number (Num c)) =
          digits (nat ((valueOf c + 50) div 100) div 10) @ ''.'' @
          [digit_char (nat ((valueOf c + 50) div 100) mod 10)] @ ''k'')
   \<and> (9950 \<le> valueOf c \<and> valueOf c < 10000 \<longrightarrow>
        formatStars L (Number (Num c)) = ''10.0k'')
   \<and> (10000 \<le> valueOf c \<longrightarrow>
        formatStars L (Number (Num c)) = digits (nat ((valueOf c + 500) div 1000)) @ ''k'')"
proof -
  let ?n = "valueOf c"
  have 1: "formatStars L Null = ''0''" "formatStars L Undefined = ''0''"
    "formatStars L (Number NaN) = ''0''" "formatStars L (Number NegZero) = L NegZero"
    "formatStars L (Number NegInfinity) = L NegInfinity"
    "formatStars L (Number PosInfinity) = ''Infinityk''"
    by (simp_all add: formatStars_def Number_toString_def)
  have 2: "?n < 1000 \<longrightarrow> formatStars L (Number (Num c)) = L (Num c)"
    by (simp add: formatStars_def)
  have 3: "0 \<le> ?n \<and> ?n < 1000 \<and> plainDigitsHost L \<longrightarrow>
        formatStars L (Number (Num c)) = digits (nat ?n)"
    by (simp add: formatStars_def plainDigitsHost_def)
  have mid: "formatStars L (Number (Num c)) =
          digits (nat ((?n + 50) div 100) div 10) @ ''.'' @
          [digit_char (nat ((?n + 50) div 100) mod 10)] @ ''k''"
    if c: "1000 \<le> ?n" "?n < 10000"
  proof -
    have r0: "0 \<le> (?n + 50) div 100" using c by simp
    have "formatStars L (Number (Num c)) = toFixed1 (of_int ((?n + 50) div 100) / 10) @ ''k''"
      using c by (simp add: formatStars_def Math_round_100)
    also have "\<dots> = digits (nat ((?n + 50) div 100) div 10) @ ''.'' @
          digits (nat ((?n + 50) div 100) mod 10) @ ''k''"
      using toFixed1_tenths[OF r0] by simp
    finally show ?thesis by (simp add: digits_single)
  qed
  have 4: "1000 \<le> ?n \<and> ?n < 10000 \<longrightarrow>
        formatStars L (Number (Num c)) =
          digits (nat ((?n + 50) div 100) div 10) @ ''.'' @
          [digit_char (nat ((?n + 50) div 100) mod 10)] @ ''k''"
    using mid by blast
  have 5: "9950 \<le> ?n \<and> ?n < 10000 \<longrightarrow> formatStars L (Number (Num c)) = ''10.0k''"
  proof
    assume c: "9950 \<le> ?n \<and> ?n < 10000"
    then have "(?n + 50) div 100 = 100" by linarith
    with mid c show "formatStars L (Number (Num c)) = ''10.0k''"
      by (simp add: digits.simps digit_char_def)
  qed
  have 6: "10000 \<le> ?n \<longrightarrow>
        formatStars L (Number (Num c)) = digits (nat ((?n + 500) div 1000)) @ ''k''"
  proof
    assume c: "10000 \<le> ?n"
    then have "0 \<le> (?n + 500) div 1000" by simp
    with c show "formatStars L (Number (Num c)) = digits (nat ((?n + 500) div 1000)) @ ''k''"
      by (simp add: formatStars_def Number_toString_def Math_round_thousands.rep_eq
                    Math_round_1000)
  qed
  from 1 2 3 plainDigitsHost_en 4 5 6 show ?thesis by blast
qed

theorem formatStars_cases_witness:
  "valueOf (safeInteger_from 999) = 999
   \<and> formatStars toLocaleString_en (Number (Num (safeInteger_from 999))) = ''999''
   \<and> formatStars toLocaleString_en (Number (Num (safeInteger_from 1234))) = ''1.2k''
   \<and> formatStars toLocaleString_en (Number (Num (safeInteger_from 9949))) = ''9.9k''
   \<and> formatStars toLocaleString_en (Number (Num (safeInteger_from 9950))) = ''10.0k''
   \<and> formatStars toLocaleString_en (Number (Num (safeInteger_from 12345))) = ''12k''"
proof -
  have v: "valueOf (safeInteger_from 999) = 999" "valueOf (safeInteger_from 1234) = 1234"
    "valueOf (safeInteger_from 9949) = 9949" "valueOf (safeInteger_from 9950) = 9950"
    "valueOf (safeInteger_from 12345) = 12345"
    by (simp_all add: valueOf_from inSafeRange_def)
  note k = formatStars_cases[of toLocaleString_en]
  have h: "plainDigitsHost toLocaleString_en"
    using k[of "safeInteger_from 999"] by blast
  have a: "0 \<le> valueOf (safeInteger_from 999) \<and> valueOf (safeInteger_from 999) < 1000"
    by (simp add: v)
  from k[of "safeInteger_from 999"] a h
  have "formatStars toLocaleString_en (Number (Num (safeInteger_from 999)))
          = digits (nat (valueOf (safeInteger_from 999)))"
    by blast
  then have 1: "formatStars toLocaleString_en (Number (Num (safeInteger_from 999))) = ''999''"
    unfolding v by (simp add: digits.simps digit_char_def)
  have a2: "1000 \<le> valueOf (safeInteger_from 1234) \<and> valueOf (safeInteger_from 1234) < 10000"
    and a3: "1000 \<le> valueOf (safeInteger_from 9949) \<and> valueOf (safeInteger_from 9949) < 10000"
    and a4: "9950 \<le> valueOf (safeInteger_from 9950) \<and> valueOf (safeInteger_from 9950) < 10000"
    and a5: "10000 \<le> valueOf (safeInteger_from 12345)"
    by (simp_all add: v)
  from k[of "safeInteger_from 1234"] a2
  have "formatStars toLocaleString_en (Number (Num (safeInteger_from 1234))) =
          digits (nat ((valueOf (safeInteger_from 1234) + 50) div 100) div 10) @ ''.'' @
          [digit_char (nat ((valueOf (safeInteger_from 1234) + 50) div 100) mod 10)] @ ''k''"
    by blast
  then have 2: "formatStars toLocaleString_en (Number (Num (safeInteger_from 1234))) = ''1.2k''"
    unfolding v by (simp add: digits.simps digit_char_def)
  from k[of "safeInteger_from 9949"] a3
  have "formatStars toLocaleString_en (Number (Num (safeInteger_from 9949))) =
          digits (nat ((valueOf (safeInteger_from 9949) + 50) div 100) div 10) @ ''.'' @
          [digit_char (nat ((valueOf (safeInteger_from 9949) + 50) div 100) mod 10)] @ ''k''"
    by blast
  then have 3: "formatStars toLocaleString_en (Number (Num (safeInteger_from 9949))) = ''9.9k''"
    unfolding v by (simp add: digits.simps digit_char_def)
  from k[of "safeInteger_from 9950"] a4
  have 4: "formatStars toLocaleString_en (Number (Num (safeInteger_from 9950))) = ''10.0k''"
    by blast
  from k[of "safeInteger_from 12345"] a5
  have "formatStars toLocaleString_en (Number (Num (safeInteger_from 12345))) =
          digits (nat ((valueOf (safeInteger_from 12345) + 500) div 1000)) @ ''k''"
    by blast
  then have 5: "formatStars toLocaleString_en (Number (Num (safeInteger_from 12345))) = ''12k''"
    unfolding v by (simp add: digits.simps digit_char_def)
  from v(1) 1 2 3 4 5 show ?thesis by blast
qed

text \<open>
  As first stated, the claim had the decimal string of the count for every count from
  0 to 999.  On a host with the Arabic-Indic numbering system the count 5 is shown as
  the digit U+0665, and on the English host \<^verbatim>\<open>-0\<close>, whose decimal string is \<^verbatim>\<open>0\<close>, is
  shown as \<^verbatim>\<open>-0\<close>.
\<close>

theorem formatStars_counterexample:
  "valueOf (safeInteger_from 5) = 5
   \<and> Number_toString (Num (safeInteger_from 5)) = ''5''
   \<and> formatStars toLocaleString_arab (Number (Num (safeInteger_from 5))) = [CHR 0xD9, CHR 0xA5]
   \<and> formatStars toLocaleString_arab (Number (Num (safeInteger_from 5))) \<noteq> ''5''
   \<and> Number_toString NegZero = ''0''
   \<and> formatStars toLocaleString_en (Number NegZero) = ''-0''"
  by (simp add: formatStars_def toLocaleString_arab_def toLocaleString_en_def
                Number_toString_def valueOf_from inSafeRange_def arabic_digits.simps
                arabic_digit_def digits.simps digit_char_def)

end
